theory Spec2Isabelle
  imports Main "HOL-Library.Sublist"
begin

section \<open>JavaScript values used by the card\<close>

text \<open>
  The card reads JSON from the integration's REST endpoints. Fields whose JavaScript
  type matters to the code (they are tested for truthiness, interpolated into a template
  string or compared with \<open>===\<close>) are kept as tagged values; the other fields get
  their documented type, with \<open>None\<close> for an absent field. Strings are lists of
  8-bit characters, so code units above 255 are outside the model.
\<close>

datatype jsval = JUndefined | JNull | JBool bool | JNum int | JStr string

fun truthy :: "jsval \<Rightarrow> bool" where
  "truthy JUndefined = False"
| "truthy JNull = False"
| "truthy (JBool b) = b"
| "truthy (JNum n) = (n \<noteq> 0)"
| "truthy (JStr s) = (s \<noteq> [])"

definition digit_char :: "nat \<Rightarrow> char" where
  "digit_char d = char_of (48 + d)"

function digits_of :: "nat \<Rightarrow> string" where
  "digits_of n = (if n < 10 then [digit_char n] else digits_of (n div 10) @ [digit_char (n mod 10)])"
  by pat_completeness auto
termination
  by (relation "measure (\<lambda>n. n)") auto

declare digits_of.simps [simp del]

definition string_of_int :: "int \<Rightarrow> string" where
  "string_of_int i = (if i < 0 then CHR ''-'' # digits_of (nat (- i)) else digits_of (nat i))"

text \<open>\<open>String(v)\<close>, which is also what a template literal does to \<open>${v}\<close>.\<close>

fun js_String :: "jsval \<Rightarrow> string" where
  "js_String JUndefined = ''undefined''"
| "js_String JNull = ''null''"
| "js_String (JBool b) = (if b then ''true'' else ''false'')"
| "js_String (JNum n) = string_of_int n"
| "js_String (JStr s) = s"

text \<open>A string-valued attribute that may be missing: \<open>undefined\<close> and \<open>""\<close> are falsy.\<close>

definition truthy_str :: "string option \<Rightarrow> bool" where
  "truthy_str v = (case v of None \<Rightarrow> False | Some s \<Rightarrow> s \<noteq> [])"

section \<open>Registry records\<close>

record device =
  device_id :: string
  dev_name :: string
  device_profile_id :: "string option"
  matrix_device_id :: "string option"
  matrix_device_type :: "string option"
  matrix_port :: jsval

text \<open>
  A platform-native (HA) device of the \<open>ha_devices\<close> registry, and the source device
  \<open>this._sourceDevice\<close>: one of those or a controlled IR device.
\<close>

record ha_device =
  ha_device_id :: string
  ha_name :: string
  entity_id :: "string option"
  media_player_entity_id :: "string option"
  device_family :: "string option"

datatype source = HaSource ha_device | IrSource device

fun source_id :: "source \<Rightarrow> string" where
  "source_id (HaSource h) = ha_device_id h"
| "source_id (IrSource d) = device_id d"

section \<open>Command dispatcher: the listeners of a command button\<close>

text \<open>
  \<open>_render\<close> gives every \<open>[data-command]\<close> button one of two sets of listeners. A
  button whose command is in \<open>repeatableCommands\<close> gets the press-and-hold listeners
  (\<open>mousedown\<close> and \<open>touchstart\<close> call \<open>_startRepeat(command)\<close>, which sends to
  \<open>this._device\<close>) and no click listener; every other button gets the click listener.
\<close>

definition repeatableCommands :: "string list" where
  "repeatableCommands = [''volume_up'', ''volume_down'', ''channel_up'', ''channel_down'',
                         ''chanup'', ''chandown'']"

text \<open>
  The body of the click listener. \<open>btn.dataset.tvDeviceId\<close> and \<open>btn.dataset.deviceId\<close>
  are strings or undefined, \<open>isSource\<close> is \<open>btn.dataset.source === 'true'\<close> and the last
  argument is \<open>this._sourceDevice\<close>. The result names the branch taken and the device
  id handed to \<open>_sendCommandToDevice\<close>; \<open>ToOwnDevice\<close> is the call
  \<open>this._sendCommand(command)\<close>, which addresses \<open>this._device\<close>.
\<close>

datatype click_target = ToTvDevice string | ToTargetDevice string | ToSourceDevice string | ToOwnDevice

definition volume_set :: "string list" where
  "volume_set = [''volume_up'', ''volume_down'', ''mute'']"

definition click_target :: "string \<Rightarrow> string option \<Rightarrow> string option \<Rightarrow> bool \<Rightarrow> source option \<Rightarrow> click_target" where
  "click_target command tvDeviceId targetDeviceId isSource sourceDevice =
     (case (if truthy_str tvDeviceId then tvDeviceId else None) of
        Some tv \<Rightarrow> ToTvDevice tv
      | None \<Rightarrow>
     (case (if truthy_str targetDeviceId then targetDeviceId else None) of
        Some tgt \<Rightarrow> ToTargetDevice tgt
      | None \<Rightarrow>
     (case sourceDevice of
        Some src \<Rightarrow>
          if isSource then ToSourceDevice (source_id src)
          else if command \<notin> set volume_set then ToSourceDevice (source_id src)
          else ToOwnDevice
      | None \<Rightarrow> ToOwnDevice)))"

text \<open>
  The device a press on a command button is sent to: the widget's own device for a
  repeatable command, whatever the button's attributes and the source device, and
  the click listener's choice for the others.
\<close>

definition press_target :: "string \<Rightarrow> string option \<Rightarrow> string option \<Rightarrow> bool \<Rightarrow> source option \<Rightarrow> click_target" where
  "press_target command tvDeviceId targetDeviceId isSource sourceDevice =
     (if command \<in> set repeatableCommands then ToOwnDevice
      else click_target command tvDeviceId targetDeviceId isSource sourceDevice)"

section \<open>Matrix devices and their input commands\<close>

text \<open>
  A matrix command as the endpoint returns it, or as \<open>_loadMatrixDevice\<close> synthesizes
  it from an input slot (\<open>generated\<close> is the \<open>_generated\<close> tag). \<open>input_value\<close> is
  compared with \<open>===\<close> by the routing query, so it keeps its JavaScript type.
\<close>

record matrix_cmd =
  command_id :: "string option"
  cmd_name :: "string option"
  is_input_option :: bool
  input_value :: jsval
  linked_device_id :: "string option"
  generated :: bool

record matrix_input =
  index :: int
  input_name :: "string option"
  input_device_id :: "string option"
  enabled :: "bool option"

text \<open>
  \<open>commands\<close> is the object \<open>matrixDevice.commands\<close> as its list of entries, in the
  order \<open>Object.values\<close> and \<open>Object.entries\<close> enumerate them; an absent object is
  the empty list, as \<open>|| {}\<close> makes it.
\<close>

record matrix_device =
  commands :: "(string \<times> matrix_cmd) list"
  matrix_inputs :: "matrix_input list"
  query_template :: "string option"
  routing_template :: "string option"

text \<open>\<open>cmd.command_id && cmd.command_id.includes(outputSuffix)\<close>\<close>

definition id_includes :: "string \<Rightarrow> matrix_cmd \<Rightarrow> bool" where
  "id_includes outputSuffix cmd =
     (case command_id cmd of None \<Rightarrow> False | Some cid \<Rightarrow> cid \<noteq> [] \<and> sublist outputSuffix cid)"

definition generated_cmd :: "matrix_input \<Rightarrow> matrix_cmd" where
  "generated_cmd inp =
     \<lparr>command_id = Some (''route_input_'' @ string_of_int (index inp)),
      cmd_name = Some (case input_name inp of
                         None \<Rightarrow> ''Input '' @ string_of_int (index inp)
                       | Some n \<Rightarrow> if n \<noteq> [] then n else ''Input '' @ string_of_int (index inp)),
      is_input_option = False,
      input_value = JStr (string_of_int (index inp)),
      linked_device_id = input_device_id inp,
      generated = True\<rparr>"

text \<open>
  The body of \<open>_loadMatrixDevice\<close> that computes \<open>this._matrixInputCommands\<close> from the
  fetched matrix record and \<open>this._device.matrix_port\<close>.
\<close>

definition resolve_input_commands :: "matrix_device \<Rightarrow> jsval \<Rightarrow> matrix_cmd list" where
  "resolve_input_commands m deviceOutput =
     (let inputCommands = filter is_input_option (map snd (commands m));
          inputCommands' =
            (if truthy deviceOutput \<and> inputCommands \<noteq> [] then
               (let outputSuffix = ''_out'' @ js_String deviceOutput;
                    filteredCommands = filter (id_includes outputSuffix) inputCommands
                in if filteredCommands \<noteq> [] then filteredCommands else inputCommands)
             else inputCommands)
      in if inputCommands' = []
         then map generated_cmd (filter (\<lambda>inp. enabled inp \<noteq> Some False) (matrix_inputs m))
         else inputCommands')"

text \<open>
  The filter the comment in the source describes ("filter to only show commands for
  that output", identifiers of the pattern \<open>route_in{X}_out{Y}\<close>, variable
  \<open>outputSuffix\<close>): the identifier ends in \<open>_out{port}\<close>.
\<close>

definition id_ends_with :: "string \<Rightarrow> matrix_cmd \<Rightarrow> bool" where
  "id_ends_with outputSuffix cmd =
     (case command_id cmd of None \<Rightarrow> False | Some cid \<Rightarrow> suffix outputSuffix cid)"

section \<open>Routing query: parsing the matrix's answer\<close>

definition is_digit :: "char \<Rightarrow> bool" where
  "is_digit c = (c \<in> set ''0123456789'')"

text \<open>The class \<open>\s\<close> (and what \<open>trim\<close> strips) among the code units below 256.\<close>

definition is_space :: "char \<Rightarrow> bool" where
  "is_space c = (of_char c \<in> set [9, 10, 11, 12, 13, 32, 160 :: nat])"

definition js_trim :: "string \<Rightarrow> string" where
  "js_trim s = rev (dropWhile is_space (rev (dropWhile is_space s)))"

text \<open>\<open>toLowerCase\<close> on code units below 256: A-Z and the Latin-1 capitals.\<close>

definition to_lower :: "char \<Rightarrow> char" where
  "to_lower c =
     (let n = (of_char c :: nat)
      in if (65 \<le> n \<and> n \<le> 90) \<or> (192 \<le> n \<and> n \<le> 222 \<and> n \<noteq> 215) then char_of (n + 32) else c)"

definition toLowerCase :: "string \<Rightarrow> string" where
  "toLowerCase s = map to_lower s"

text \<open>A literal of lower-case letters matched at the head of the text under the flag \<open>i\<close>.\<close>

definition starts_ci :: "string \<Rightarrow> string \<Rightarrow> bool" where
  "starts_ci lit s = (length lit \<le> length s \<and> toLowerCase (take (length lit) s) = lit)"

text \<open>\<open>response.match(/in(\d+)/i)\<close>: the leftmost match, its capture group.\<close>

fun match_in :: "string \<Rightarrow> string option" where
  "match_in [] = None"
| "match_in (c # cs) =
     (let ds = takeWhile is_digit (drop 2 (c # cs))
      in if starts_ci ''in'' (c # cs) \<and> ds \<noteq> [] then Some ds else match_in cs)"

text \<open>\<open>response.match(/input\s*(\d+)/i)\<close>\<close>

fun match_input :: "string \<Rightarrow> string option" where
  "match_input [] = None"
| "match_input (c # cs) =
     (let ds = takeWhile is_digit (dropWhile is_space (drop 5 (c # cs)))
      in if starts_ci ''input'' (c # cs) \<and> ds \<noteq> [] then Some ds else match_input cs)"

text \<open>
  \<open>response.match(/(\d+)\s*$/)\<close>: at a start position the greedy \<open>\d+\<close> takes the whole
  run of digits and \<open>\s*\<close> the whole run of spaces; giving characters back cannot help,
  since the character after a shortened run is a digit or a space, not the end.
\<close>

fun match_end_digits :: "string \<Rightarrow> string option" where
  "match_end_digits [] = None"
| "match_end_digits (c # cs) =
     (let ds = takeWhile is_digit (c # cs)
      in if ds \<noteq> [] \<and> dropWhile is_space (dropWhile is_digit (c # cs)) = []
         then Some ds else match_end_digits cs)"

text \<open>\<open>response.match(/(\d+)/)\<close>\<close>

fun match_digits :: "string \<Rightarrow> string option" where
  "match_digits [] = None"
| "match_digits (c # cs) =
     (if is_digit c then Some (takeWhile is_digit (c # cs)) else match_digits cs)"

definition parse_input_number :: "string \<Rightarrow> string option" where
  "parse_input_number response =
     (case match_in response of Some d \<Rightarrow> Some d | None \<Rightarrow>
      (case match_input response of Some d \<Rightarrow> Some d | None \<Rightarrow>
       (case match_end_digits response of Some d \<Rightarrow> Some d | None \<Rightarrow>
        match_digits response)))"

text \<open>
  \<open>inputNum = inputMatch[1]\<close> is the captured string, and
  \<open>cmd.input_value === inputNum || cmd.input_value === String(inputNum)\<close> compares it
  with \<open>===\<close>.
\<close>

definition matches_input_num :: "string \<Rightarrow> matrix_cmd \<Rightarrow> bool" where
  "matches_input_num inputNum cmd =
     (input_value cmd = JStr inputNum \<or> input_value cmd = JStr (js_String (JStr inputNum)))"

text \<open>An input command whose \<open>input_value\<close> is a string.\<close>

definition string_valued :: "matrix_cmd \<Rightarrow> bool" where
  "string_valued cmd = (case input_value cmd of JStr v \<Rightarrow> True | _ \<Rightarrow> False)"

text \<open>
  The part of \<open>_queryMatrixRouting\<close> after the query returned \<open>result\<close> with the field
  \<open>response\<close>: the input command it selects, if any.
\<close>

definition routing_match :: "matrix_cmd list \<Rightarrow> jsval \<Rightarrow> matrix_cmd option" where
  "routing_match matrixInputCommands response =
     (if truthy response then
        (case parse_input_number (js_trim (js_String response)) of
           None \<Rightarrow> None
         | Some inputNum \<Rightarrow> find (matches_input_num inputNum) matrixInputCommands)
      else None)"

text \<open>A 16-output matrix seen from the device wired to output 1, and example slots.\<close>

definition declared_cmd :: "string \<Rightarrow> string \<Rightarrow> matrix_cmd" where
  "declared_cmd cid v =
     \<lparr>command_id = Some cid, cmd_name = Some cid, is_input_option = True,
      input_value = JStr v, linked_device_id = None, generated = False\<rparr>"

definition matrix16 :: matrix_device where
  "matrix16 =
     \<lparr>commands = [(''route_in1_out1'', declared_cmd ''route_in1_out1'' ''1''),
                  (''route_in1_out10'', declared_cmd ''route_in1_out10'' ''1''),
                  (''route_in2_out2'', declared_cmd ''route_in2_out2'' ''2'')],
      matrix_inputs = [], query_template = None, routing_template = None\<rparr>"

definition slot :: "int \<Rightarrow> string option \<Rightarrow> bool option \<Rightarrow> matrix_input" where
  "slot i n e = \<lparr>index = i, input_name = n, input_device_id = None, enabled = e\<rparr>"

definition matrix_slots :: matrix_device where
  "matrix_slots =
     \<lparr>commands = [],
      matrix_inputs = [slot 1 (Some ''Roku'') None, slot 2 None (Some True),
                       slot 3 (Some ''Cable'') (Some False), slot 7 (Some []) None],
      query_template = None, routing_template = None\<rparr>"

section \<open>The card: state, environment and timers\<close>

text \<open>
  The outcome of \<open>await fetch(url)\<close> followed by \<open>resp.json()\<close>: the request rejects,
  the response is not \<open>ok\<close>, reading the body rejects, or the body arrives.
\<close>

datatype 'a fetch_outcome = FetchThrows | NotOk | BodyThrows | Ok 'a

record profile =
  codes :: "string list"
  learned_commands :: "string list"
  device_type :: "string option"

text \<open>
  The calls \<open>this._hass.callService('vda_ir_control', name, data)\<close> the card makes,
  named by the service. The matrix identifier is \<open>this._device.matrix_device_id\<close>,
  which the registry may leave out.
\<close>

datatype service_call =
    send_command string string
  | send_ha_command string string
  | send_serial_command "string option" string
  | send_network_command "string option" string
  | send_raw_serial_command "string option" string

text \<open>
  The environment: \<open>svc n c\<close> tells whether the call \<open>c\<close>, made after \<open>n\<close> earlier
  calls, resolves (\<open>True\<close>) or throws; the two \<open>fetch\<close> functions answer a URL;
  \<open>hass_states\<close> tells which entity ids \<open>this._hass.states\<close> holds.
\<close>

record env =
  svc :: "nat \<Rightarrow> service_call \<Rightarrow> bool"
  fetch_ha_commands :: "string \<Rightarrow> string list option fetch_outcome"
  fetch_profile :: "string \<Rightarrow> profile fetch_outcome"
  hass_states :: "string \<Rightarrow> bool"

text \<open>
  What a pending browser timer will run. \<open>ClearLastSentIf tag\<close> is the callback of
  \<open>_sendCommand\<close>, \<open>_sendCommandToDevice\<close> and \<open>_sendMatrixCommand\<close>, guarded by
  \<open>this._lastSent === tag\<close>; \<open>ClearLastSent\<close> is the unguarded callback of the click
  handler; \<open>SettleClear\<close> is the one \<open>_stopRepeat\<close> schedules; \<open>FillDelay\<close> and
  \<open>RepeatTick\<close> are the timeout and the interval of \<open>_startRepeat\<close>.
\<close>

datatype timer_job =
    RepeatTick string | FillDelay string | ClearLastSentIf string | ClearLastSent | SettleClear

record timer =
  timer_id :: nat
  delay :: int
  repeats :: bool
  job :: timer_job

text \<open>
  An \<open>async\<close> method is modelled as one step, from its call to its end, with the
  outcome of each awaited request or service call read from the environment. Where
  what happens between the call and its outcome matters (the cache, the queue, the
  click listener), the method is split at the \<open>await\<close>.

  The fields of \<open>VDAIRRemoteCard\<close> the modelled methods read or write. \<open>timers\<close> is the
  browser's table of pending timers and \<open>nextTimer\<close> the next handle it gives out
  (handles are positive, hence truthy); \<open>calls\<close> logs the service calls made;
  \<open>toastInDom\<close> tells whether the last \<open>_render\<close> produced the \<open>.sent-toast\<close> element,
  which is part of the modal; \<open>renders\<close> counts the calls of \<open>_render\<close>.
\<close>

record card =
  w_device :: "device option"
  matrixDevice :: "matrix_device option"
  matrixInputCommands :: "matrix_cmd list"
  selectedMatrixInput :: "string option"
  allDevices :: "device list"
  haDevices :: "ha_device list"
  sourceDevice :: "source option"
  sourceCommands :: "string list"
  sourceIsHADevice :: bool
  sourceMediaPlayerEntity :: "string option"
  sourceDeviceType :: "string option"
  showRemote :: bool
  lastSent :: "string option"
  lastSendTime :: "int option"
  isHolding :: bool
  holdCommand :: "string option"
  repeatInterval :: "nat option"
  fillDelayTimeout :: "nat option"
  toastInDom :: bool
  timers :: "timer list"
  nextTimer :: nat
  calls :: "service_call list"
  renders :: nat

definition render :: "card \<Rightarrow> card" where
  "render s = s\<lparr>toastInDom := (w_device s \<noteq> None \<and> showRemote s), renders := renders s + 1\<rparr>"

definition setTimer :: "timer_job \<Rightarrow> int \<Rightarrow> bool \<Rightarrow> card \<Rightarrow> nat \<times> card" where
  "setTimer j d r s =
     (nextTimer s,
      s\<lparr>timers := timers s @ [\<lparr>timer_id = nextTimer s, delay = d, repeats = r, job = j\<rparr>],
        nextTimer := nextTimer s + 1\<rparr>)"

definition clearTimer :: "nat \<Rightarrow> card \<Rightarrow> card" where
  "clearTimer i s = s\<lparr>timers := filter (\<lambda>t. timer_id t \<noteq> i) (timers s)\<rparr>"

text \<open>\<open>this._lastSendTime && now - this._lastSendTime < 150\<close>\<close>

definition debounced :: "int \<Rightarrow> card \<Rightarrow> bool" where
  "debounced now s = (case lastSendTime s of None \<Rightarrow> False | Some l \<Rightarrow> l \<noteq> 0 \<and> now - l < 150)"

definition updateToast :: "string option \<Rightarrow> card \<Rightarrow> card" where
  "updateToast command s =
     (if toastInDom s then s
      else if truthy_str command \<and> showRemote s then render (s\<lparr>lastSent := command\<rparr>)
      else s)"

text \<open>
  \<open>_sendCommandSilent\<close>: the call is made and awaited inside \<open>try\<close>; whether it
  resolves or throws changes nothing but the console.
\<close>

definition sendCommandSilent :: "int \<Rightarrow> string \<Rightarrow> card \<Rightarrow> card" where
  "sendCommandSilent now command s =
     (case w_device s of
        None \<Rightarrow> s
      | Some d \<Rightarrow>
          if debounced now s then s
          else s\<lparr>lastSendTime := Some now,
                 calls := calls s @ [send_command (device_id d) command]\<rparr>)"

definition sendCommand :: "env \<Rightarrow> int \<Rightarrow> string \<Rightarrow> card \<Rightarrow> card" where
  "sendCommand e now command s =
     (case w_device s of
        None \<Rightarrow> s
      | Some d \<Rightarrow>
          if debounced now s then s
          else
            (let c = send_command (device_id d) command;
                 s1 = s\<lparr>lastSendTime := Some now, calls := calls s @ [c]\<rparr>
             in if svc e (length (calls s)) c
                then snd (setTimer (ClearLastSentIf command) 1000 False
                            (render (s1\<lparr>lastSent := Some command\<rparr>)))
                else s1))"

definition startRepeat :: "int \<Rightarrow> string \<Rightarrow> card \<Rightarrow> card" where
  "startRepeat now command s =
     (let s1 = s\<lparr>isHolding := True, holdCommand := Some command\<rparr>;
          s2 = updateToast (Some command) s1;
          s3 = sendCommandSilent now command s2;
          (f, s4) = setTimer (FillDelay command) 250 False s3;
          s5 = s4\<lparr>fillDelayTimeout := Some f\<rparr>;
          (r, s6) = setTimer (RepeatTick command) 200 True s5
      in s6\<lparr>repeatInterval := Some r\<rparr>)"

definition stopRepeat :: "card \<Rightarrow> card" where
  "stopRepeat s =
     (let s1 = (case repeatInterval s of
                  Some r \<Rightarrow> (clearTimer r s)\<lparr>repeatInterval := None\<rparr>
                | None \<Rightarrow> s);
          s2 = (case fillDelayTimeout s1 of
                  Some f \<Rightarrow> (clearTimer f s1)\<lparr>fillDelayTimeout := None\<rparr>
                | None \<Rightarrow> s1)
      in if isHolding s2
         then (let cmd = holdCommand s2;
                   s3 = s2\<lparr>isHolding := False, holdCommand := None\<rparr>;
                   s4 = updateToast cmd s3
               in snd (setTimer SettleClear 500 False s4))
         else s2)"


fun run_job :: "int \<Rightarrow> timer_job \<Rightarrow> card \<Rightarrow> card" where
  "run_job now (RepeatTick command) s = sendCommandSilent now command s"
| "run_job now (FillDelay command) s = s"
| "run_job now (ClearLastSentIf tag) s =
     (if lastSent s = Some tag then render (s\<lparr>lastSent := None\<rparr>) else s)"
| "run_job now ClearLastSent s = render (s\<lparr>lastSent := None\<rparr>)"
| "run_job now SettleClear s = updateToast None (s\<lparr>lastSent := None\<rparr>)"

text \<open>
  The browser runs the pending timer with handle \<open>i\<close> at time \<open>now\<close>: a cleared timer
  does nothing, a timeout leaves the table before its callback runs, an interval stays.
\<close>

definition fire_timer :: "int \<Rightarrow> nat \<Rightarrow> card \<Rightarrow> card" where
  "fire_timer now i s =
     (case find (\<lambda>t. timer_id t = i) (timers s) of
        None \<Rightarrow> s
      | Some t \<Rightarrow> run_job now (job t) (if repeats t then s else clearTimer i s))"

section \<open>Resolver: the source device behind the selected input\<close>

text \<open>\<open>text.replace(pat, rep)\<close> with a string pattern: the first occurrence only.\<close>

fun replace_first :: "string \<Rightarrow> string \<Rightarrow> string \<Rightarrow> string" where
  "replace_first pat rep [] = (if pat = [] then rep else [])"
| "replace_first pat rep (c # cs) =
     (if prefix pat (c # cs) then rep @ drop (length pat) (c # cs)
      else c # replace_first pat rep cs)"

definition common_commands :: "string list" where
  "common_commands = [''up'', ''down'', ''left'', ''right'', ''select'', ''menu'', ''home'',
                      ''back'', ''play_pause'', ''power'']"

definition ha_commands_url :: "string \<Rightarrow> string" where
  "ha_commands_url i = ''/api/vda_ir_control/ha_devices/'' @ i @ ''/commands''"

text \<open>The branch of \<open>_loadSourceDevice\<close> for a linked device found among the HA devices.\<close>

definition load_ha_source :: "env \<Rightarrow> ha_device \<Rightarrow> card \<Rightarrow> card" where
  "load_ha_source e h s =
     (let s1 = s\<lparr>sourceDevice := Some (HaSource h), sourceIsHADevice := True\<rparr>;
          s2 = (if truthy_str (media_player_entity_id h)
                then s1\<lparr>sourceMediaPlayerEntity := media_player_entity_id h\<rparr>
                else (case entity_id h of
                        None \<Rightarrow> s1\<lparr>sourceMediaPlayerEntity := None\<rparr>
                      | Some eid \<Rightarrow>
                          if eid \<noteq> [] \<and> prefix ''remote.'' eid then
                            (let possibleMediaPlayer = ''media_player.'' @ replace_first ''remote.'' [] eid
                             in if hass_states e possibleMediaPlayer
                                then s1\<lparr>sourceMediaPlayerEntity := Some possibleMediaPlayer\<rparr>
                                else s1)
                          else if eid \<noteq> [] \<and> prefix ''media_player.'' eid
                          then s1\<lparr>sourceMediaPlayerEntity := Some eid\<rparr>
                          else s1\<lparr>sourceMediaPlayerEntity := None\<rparr>))
      in case fetch_ha_commands e (ha_commands_url (ha_device_id h)) of
           Ok body \<Rightarrow>
             s2\<lparr>sourceCommands := map toLowerCase (case body of None \<Rightarrow> [] | Some cs \<Rightarrow> cs),
                sourceDeviceType := device_family h\<rparr>
         | NotOk \<Rightarrow> s2
         | FetchThrows \<Rightarrow> s2\<lparr>sourceCommands := common_commands\<rparr>
         | BodyThrows \<Rightarrow> s2\<lparr>sourceCommands := common_commands\<rparr>)"

text \<open>The branch for a linked device found among the controlled IR devices.\<close>

definition load_ir_source :: "env \<Rightarrow> device \<Rightarrow> card \<Rightarrow> card" where
  "load_ir_source e d s =
     (let s1 = s\<lparr>sourceDevice := Some (IrSource d), sourceIsHADevice := False,
                 sourceMediaPlayerEntity := None\<rparr>
      in case (if truthy_str (device_profile_id d) then device_profile_id d else None) of
           None \<Rightarrow> s1
         | Some profileId \<Rightarrow>
             if prefix ''builtin:'' profileId then
               (case fetch_profile e (''/api/vda_ir_control/builtin_profiles/'' @ drop 8 profileId) of
                  Ok pr \<Rightarrow> s1\<lparr>sourceCommands := codes pr, sourceDeviceType := device_type pr\<rparr>
                | _ \<Rightarrow> s1)
             else
               (case fetch_profile e (''/api/vda_ir_control/profiles/'' @ profileId) of
                  Ok pr \<Rightarrow> s1\<lparr>sourceCommands := learned_commands pr,
                               sourceDeviceType := device_type pr\<rparr>
                | _ \<Rightarrow> s1))"

definition loadSourceDevice :: "env \<Rightarrow> card \<Rightarrow> card" where
  "loadSourceDevice e s0 =
     (let s = s0\<lparr>sourceDevice := None, sourceCommands := [], sourceIsHADevice := False\<rparr>
      in case matrixDevice s of None \<Rightarrow> s | Some m \<Rightarrow>
        (case (if truthy_str (selectedMatrixInput s) then selectedMatrixInput s else None) of
           None \<Rightarrow> s | Some sel \<Rightarrow>
        (case find (\<lambda>c. command_id c = Some sel) (matrixInputCommands s) of
           None \<Rightarrow> s | Some inputCmd \<Rightarrow>
        (case find (\<lambda>i. string_of_int (index i) = js_String (input_value inputCmd))
                (matrix_inputs m) of
           None \<Rightarrow> s | Some matrixInput \<Rightarrow>
        (case (if truthy_str (input_device_id matrixInput) then input_device_id matrixInput
               else None) of
           None \<Rightarrow> s | Some linked \<Rightarrow>
        (case find (\<lambda>h. ha_device_id h = linked) (haDevices s) of
           Some h \<Rightarrow> load_ha_source e h s
         | None \<Rightarrow>
        (case find (\<lambda>d. device_id d = linked) (allDevices s) of
           None \<Rightarrow> s
         | Some d \<Rightarrow> load_ir_source e d s)))))))"

section \<open>Dispatcher: selecting a matrix input\<close>

text \<open>
  The service call \<open>_sendMatrixCommand(commandId)\<close> makes: the routing template with
  \<open>{input}\<close> and \<open>{output}\<close> filled in for a generated command of a serial matrix
  (none when the matrix has no routing template), the command identifier otherwise.
\<close>

definition matrix_call :: "matrix_device \<Rightarrow> device \<Rightarrow> matrix_cmd list \<Rightarrow> string \<Rightarrow> service_call option" where
  "matrix_call m dev matrixInputCommands' commandId =
     (let matrixType = matrix_device_type dev;
          matrixId = matrix_device_id dev;
          generated_serial =
            (case find (\<lambda>c. command_id c = Some commandId) matrixInputCommands' of
               None \<Rightarrow> None
             | Some cmd \<Rightarrow> if generated cmd \<and> matrixType = Some ''serial'' then Some cmd else None)
      in case generated_serial of
           Some cmd \<Rightarrow>
             (case (if truthy_str (routing_template m) then routing_template m else None) of
                None \<Rightarrow> None
              | Some template \<Rightarrow>
                  Some (send_raw_serial_command matrixId
                          (replace_first ''{output}'' (js_String (matrix_port dev))
                             (replace_first ''{input}'' (js_String (input_value cmd)) template))))
         | None \<Rightarrow>
             Some (if matrixType = Some ''network'' then send_network_command matrixId commandId
                   else send_serial_command matrixId commandId))"

definition sendMatrixCommand :: "env \<Rightarrow> string \<Rightarrow> card \<Rightarrow> card" where
  "sendMatrixCommand e commandId s =
     (case matrixDevice s of None \<Rightarrow> s | Some m \<Rightarrow>
     (case w_device s of None \<Rightarrow> s | Some dev \<Rightarrow>
     (case matrix_call m dev (matrixInputCommands s) commandId of
        None \<Rightarrow> s
      | Some c \<Rightarrow>
          (let s1 = s\<lparr>calls := calls s @ [c]\<rparr>
           in if svc e (length (calls s)) c then
                (let s2 = s1\<lparr>selectedMatrixInput := Some commandId,
                              lastSent := Some (''Matrix: '' @ commandId)\<rparr>;
                     s3 = loadSourceDevice e s2
                 in snd (setTimer (ClearLastSentIf (''Matrix: '' @ commandId)) 2000 False
                           (render s3)))
              else s1))))"

section \<open>Example configuration\<close>

definition tv1 :: device where
  "tv1 = \<lparr>device_id = ''tv1'', dev_name = ''TV'', device_profile_id = Some ''builtin:tv'',
           matrix_device_id = Some ''mx'', matrix_device_type = Some ''serial'',
           matrix_port = JNum 1\<rparr>"

definition roku :: ha_device where
  "roku = \<lparr>ha_device_id = ''roku'', ha_name = ''Roku'', entity_id = Some ''remote.roku'',
            media_player_entity_id = None, device_family = Some ''roku''\<rparr>"

definition matrix4 :: matrix_device where
  "matrix4 =
     \<lparr>commands = [(''route_in1_out1'', declared_cmd ''route_in1_out1'' ''1''),
                  (''route_in2_out1'', declared_cmd ''route_in2_out1'' ''2'')],
      matrix_inputs = [\<lparr>index = 1, input_name = Some ''Roku'', input_device_id = Some ''roku'',
                         enabled = None\<rparr>,
                       \<lparr>index = 2, input_name = None, input_device_id = None, enabled = None\<rparr>],
      query_template = None, routing_template = None\<rparr>"

text \<open>The card of \<open>tv1\<close> after loading, nothing pressed yet, input 2 selected.\<close>

definition card0 :: card where
  "card0 =
     \<lparr>w_device = Some tv1, matrixDevice = Some matrix4,
      matrixInputCommands = resolve_input_commands matrix4 (matrix_port tv1),
      selectedMatrixInput = Some ''route_in2_out1'', allDevices = [tv1], haDevices = [roku],
      sourceDevice = None, sourceCommands = [], sourceIsHADevice = False,
      sourceMediaPlayerEntity = None, sourceDeviceType = None, showRemote = False,
      lastSent = None, lastSendTime = None, isHolding = False, holdCommand = None,
      repeatInterval = None, fillDelayTimeout = None, toastInDom = False, timers = [],
      nextTimer = 1, calls = [], renders = 1\<rparr>"

text \<open>An environment in which every request and every service call fails, and one in
  which they succeed.\<close>

definition env_down :: env where
  "env_down = \<lparr>svc = (\<lambda>n c. False), fetch_ha_commands = (\<lambda>u. FetchThrows),
                fetch_profile = (\<lambda>u. FetchThrows), hass_states = (\<lambda>i. False)\<rparr>"

definition env_up :: env where
  "env_up = \<lparr>svc = (\<lambda>n c. True),
              fetch_ha_commands = (\<lambda>u. if u = ''/api/vda_ir_control/ha_devices/roku/commands''
                                         then Ok (Some [''Home'', ''SELECT'', ''back''])
                                         else NotOk),
              fetch_profile = (\<lambda>u. NotOk), hass_states = (\<lambda>i. i = ''media_player.roku'')\<rparr>"

text \<open>An environment whose endpoints answer with an error status, and the card with
  the Roku's input selected.\<close>

definition env_not_ok :: env where
  "env_not_ok = \<lparr>svc = (\<lambda>n c. True), fetch_ha_commands = (\<lambda>u. NotOk),
                  fetch_profile = (\<lambda>u. NotOk), hass_states = (\<lambda>i. False)\<rparr>"

definition card_sel :: card where
  "card_sel = card0\<lparr>selectedMatrixInput := Some ''route_in1_out1''\<rparr>"

section \<open>Dispatcher: group power\<close>

datatype member_kind = Controlled | Serial

text \<open>
  A resolved group member: the registry record of the device with the tag
  \<open>member_type\<close> that \<open>_loadDeviceData\<close> adds (\<open>'controlled'\<close> or \<open>'serial'\<close>; members of
  any other kind are dropped there).
\<close>

record group_member =
  member_device_id :: string
  member_name :: string
  member_type :: member_kind
  member_commands :: "(string \<times> matrix_cmd) list"

record device_group =
  group_id :: string
  sequence_delay_ms :: "int option"

text \<open>
  What the dispatch does, in order: a status line shown by \<open>_render\<close>, a service call,
  or the awaited \<open>setTimeout(resolve, delay)\<close>.
\<close>

datatype group_event = Status string | Invoke service_call | Wait int

text \<open>
  \<open>Object.entries(member.commands || {}).find(([id, cmd]) =>
     id === 'power' || cmd.name?.toLowerCase() === 'power')\<close>
\<close>

definition power_entry :: "(string \<times> matrix_cmd) list \<Rightarrow> (string \<times> matrix_cmd) option" where
  "power_entry cmds =
     find (\<lambda>(i, cmd). i = ''power'' \<or> map_option toLowerCase (cmd_name cmd) = Some ''power'') cmds"

definition member_call :: "group_member \<Rightarrow> service_call option" where
  "member_call mem =
     (case member_type mem of
        Controlled \<Rightarrow> Some (send_command (member_device_id mem) ''power'')
      | Serial \<Rightarrow>
          (case power_entry (member_commands mem) of
             None \<Rightarrow> None
           | Some (i, cmd) \<Rightarrow> Some (send_serial_command (Some (member_device_id mem)) i)))"

text \<open>
  The \<open>for\<close> loop of \<open>_sendGroupPowerCommand\<close> from index \<open>i\<close> on, over the members not
  yet visited; \<open>n\<close> is \<open>this._groupMemberDevices.length\<close>, \<open>k\<close> the number of service
  calls made so far and \<open>successCount\<close> the counter. A call that throws is caught and
  the loop goes on.
\<close>

fun group_power_loop ::
  "(nat \<Rightarrow> service_call \<Rightarrow> bool) \<Rightarrow> int \<Rightarrow> nat \<Rightarrow> nat \<Rightarrow> nat \<Rightarrow> nat \<Rightarrow> group_member list
     \<Rightarrow> group_event list \<times> nat \<times> nat" where
  "group_power_loop sv dly n i k successCount [] = ([], k, successCount)"
| "group_power_loop sv dly n i k successCount (mem # rest) =
     (let status = Status (''Sending to '' @ member_name mem @ '' ('' @ string_of_int (int i + 1)
                             @ ''/'' @ string_of_int (int n) @ '')'');
          (sent, k', successCount') =
            (case member_call mem of
               None \<Rightarrow> ([], k, successCount)
             | Some c \<Rightarrow> ([Invoke c], k + 1, if sv k c then successCount + 1 else successCount));
          waits = (if int i < int n - 1 then [Wait dly] else []);
          (ev, k'', successCount'') = group_power_loop sv dly n (i + 1) k' successCount' rest
      in (status # sent @ waits @ ev, k'', successCount''))"

text \<open>\<open>this._deviceGroup.sequence_delay_ms || 20\<close>\<close>

definition group_delay :: "device_group \<Rightarrow> int" where
  "group_delay g = (case sequence_delay_ms g of None \<Rightarrow> 20 | Some d \<Rightarrow> if d \<noteq> 0 then d else 20)"

text \<open>
  \<open>_sendGroupPowerCommand\<close>: the events in order and the final \<open>successCount\<close>. The
  outcome of the \<open>k\<close>-th service call of the run is \<open>sv k\<close>.
\<close>

definition sendGroupPowerCommand ::
  "(nat \<Rightarrow> service_call \<Rightarrow> bool) \<Rightarrow> device_group option \<Rightarrow> group_member list
     \<Rightarrow> group_event list \<times> nat" where
  "sendGroupPowerCommand sv deviceGroup groupMemberDevices =
     (case deviceGroup of
        None \<Rightarrow> ([], 0)
      | Some g \<Rightarrow>
          if groupMemberDevices = [] then ([], 0)
          else
            (let (ev, k, successCount) =
                   group_power_loop sv (group_delay g) (length groupMemberDevices) 0 0 0
                     groupMemberDevices
             in (Status ''Sending power commands...'' # ev
                   @ [Status (''Sent to '' @ string_of_int (int successCount) @ ''/''
                              @ string_of_int (int (length groupMemberDevices)) @ '' devices'')],
                 successCount)))"

fun invoked :: "group_event list \<Rightarrow> service_call list" where
  "invoked [] = []"
| "invoked (Invoke c # ev) = c # invoked ev"
| "invoked (_ # ev) = invoked ev"

fun waits_of :: "group_event list \<Rightarrow> int list" where
  "waits_of [] = []"
| "waits_of (Wait d # ev) = d # waits_of ev"
| "waits_of (_ # ev) = waits_of ev"

fun is_wait :: "group_event \<Rightarrow> bool" where
  "is_wait (Wait d) = True"
| "is_wait _ = False"

text \<open>The calls a group asks for, member by member, whatever their outcome.\<close>

definition group_calls :: "group_member list \<Rightarrow> service_call list" where
  "group_calls ms = concat (map (\<lambda>m. case member_call m of None \<Rightarrow> [] | Some c \<Rightarrow> [c]) ms)"

definition succeeded :: "(nat \<Rightarrow> service_call \<Rightarrow> bool) \<Rightarrow> nat \<Rightarrow> service_call list \<Rightarrow> nat" where
  "succeeded sv k cs = length (filter (\<lambda>(j, c). sv j c) (enumerate k cs))"

text \<open>Example members and groups.\<close>

definition serial_cmd :: "string \<Rightarrow> string \<Rightarrow> matrix_cmd" where
  "serial_cmd cid nm =
     \<lparr>command_id = Some cid, cmd_name = Some nm, is_input_option = False,
      input_value = JUndefined, linked_device_id = None, generated = False\<rparr>"

definition member_tv :: group_member where
  "member_tv = \<lparr>member_device_id = ''tv1'', member_name = ''TV'', member_type = Controlled,
                 member_commands = []\<rparr>"

text \<open>An amplifier on a serial line whose power command is found by its name.\<close>

definition member_amp :: group_member where
  "member_amp = \<lparr>member_device_id = ''amp'', member_name = ''Amp'', member_type = Serial,
                  member_commands = [(''vol'', serial_cmd ''vol'' ''Volume''),
                                     (''pwr'', serial_cmd ''pwr'' ''Power''),
                                     (''power'', serial_cmd ''power'' ''Toggle'')]\<rparr>"

text \<open>A switch on a serial line whose power command is found by its identifier.\<close>

definition member_sw :: group_member where
  "member_sw = \<lparr>member_device_id = ''sw'', member_name = ''Switch'', member_type = Serial,
                 member_commands = [(''in1'', serial_cmd ''in1'' ''Input 1''),
                                    (''power'', serial_cmd ''power'' ''Toggle''),
                                    (''pwr'', serial_cmd ''pwr'' ''power'')]\<rparr>"

text \<open>A serial device without a power command.\<close>

definition member_hub :: group_member where
  "member_hub = \<lparr>member_device_id = ''hub'', member_name = ''Hub'', member_type = Serial,
                  member_commands = [(''in1'', serial_cmd ''in1'' ''Input 1'')]\<rparr>"

definition group3 :: "group_member list" where
  "group3 = [member_tv, member_amp, member_sw]"

definition group2 :: "group_member list" where
  "group2 = [member_hub, member_tv]"

section \<open>Shared response cache\<close>

text \<open>
  \<open>VDADataCache\<close>: \<open>_data\<close> maps a key to a value with its timestamp, \<open>_loading\<close> maps
  a key to the promise of the fetch in flight. Promises are numbered; \<open>settled\<close> tells
  how a promise ended once it has, and \<open>invocations\<close> logs the keys for which the
  producer \<open>fetchFn\<close> was called, in order.
\<close>

datatype 'v settlement = Resolved 'v | Rejected

record 'v cache =
  data :: "string \<Rightarrow> ('v \<times> int) option"
  loading :: "string \<Rightarrow> nat option"
  settled :: "nat \<Rightarrow> 'v settlement option"
  next_promise :: nat
  invocations :: "string list"

definition ttl :: int where
  "ttl = 5000"

text \<open>What the caller of \<open>fetch\<close> gets: the cached value, or the promise in flight.\<close>

datatype 'v fetched = Cached 'v | Pending nat

text \<open>
  \<open>fetch(key, fetchFn)\<close> called at time \<open>now\<close>, up to its \<open>return\<close>. The producer is an
  async function, so calling it returns a promise and its outcome arrives later, as
  one of the two events below.
\<close>

definition fetch :: "string \<Rightarrow> int \<Rightarrow> 'v cache \<Rightarrow> 'v fetched \<times> 'v cache" where
  "fetch key now c =
     (case (case data c key of
              Some (v, timestamp) \<Rightarrow> if now - timestamp < ttl then Some v else None
            | None \<Rightarrow> None) of
        Some v \<Rightarrow> (Cached v, c)
      | None \<Rightarrow>
          (case loading c key of
             Some p \<Rightarrow> (Pending p, c)
           | None \<Rightarrow>
               (Pending (next_promise c),
                c\<lparr>loading := (loading c)(key \<mapsto> next_promise c),
                  next_promise := next_promise c + 1,
                  invocations := invocations c @ [key]\<rparr>)))"

text \<open>
  The \<open>then\<close> callback of the fetch in flight for \<open>key\<close>, run at time \<open>now\<close> with the
  producer's value, and the \<open>catch\<close> callback, run when the producer failed.
\<close>

definition producer_resolves :: "string \<Rightarrow> 'v \<Rightarrow> int \<Rightarrow> 'v cache \<Rightarrow> 'v cache" where
  "producer_resolves key v now c =
     (case loading c key of
        None \<Rightarrow> c
      | Some p \<Rightarrow> c\<lparr>data := (data c)(key \<mapsto> (v, now)),
                     loading := (loading c)(key := None),
                     settled := (settled c)(p \<mapsto> Resolved v)\<rparr>)"

definition producer_rejects :: "string \<Rightarrow> 'v cache \<Rightarrow> 'v cache" where
  "producer_rejects key c =
     (case loading c key of
        None \<Rightarrow> c
      | Some p \<Rightarrow> c\<lparr>loading := (loading c)(key := None),
                     settled := (settled c)(p \<mapsto> Rejected)\<rparr>)"

definition invalidate :: "string \<Rightarrow> 'v cache \<Rightarrow> 'v cache" where
  "invalidate key c = c\<lparr>data := (data c)(key := None)\<rparr>"

definition invalidateAll :: "'v cache \<Rightarrow> 'v cache" where
  "invalidateAll c = c\<lparr>data := (\<lambda>k. None)\<rparr>"

text \<open>What a caller holding the result of \<open>fetch\<close> has received by now, if anything.\<close>

fun received :: "'v cache \<Rightarrow> 'v fetched \<Rightarrow> 'v settlement option" where
  "received c (Cached v) = Some (Resolved v)"
| "received c (Pending p) = settled c p"

text \<open>What happens to the cache over time, one event after the other.\<close>

datatype 'v cache_event =
    Fetch string int
  | Resolves string 'v int
  | Rejects string
  | Invalidate string
  | InvalidateAll

fun cache_step :: "'v cache \<Rightarrow> 'v cache_event \<Rightarrow> 'v cache" where
  "cache_step c (Fetch key now) = snd (fetch key now c)"
| "cache_step c (Resolves key v now) = producer_resolves key v now c"
| "cache_step c (Rejects key) = producer_rejects key c"
| "cache_step c (Invalidate key) = invalidate key c"
| "cache_step c InvalidateAll = invalidateAll c"

definition cache_run :: "'v cache_event list \<Rightarrow> 'v cache \<Rightarrow> 'v cache" where
  "cache_run evs c = foldl cache_step c evs"

text \<open>
  An event that keeps what a producer stored for \<open>key\<close> and happens in the window of
  one time-to-live that starts at \<open>t\<close>: no failure of the producer for \<open>key\<close>, no
  invalidation, and a clock reading in \<open>[t, t + ttl)\<close>.
\<close>

fun keeps_in_window :: "string \<Rightarrow> int \<Rightarrow> 'v cache_event \<Rightarrow> bool" where
  "keeps_in_window key t (Fetch k now) = (t \<le> now \<and> now < t + ttl)"
| "keeps_in_window key t (Resolves k v now) = (t \<le> now \<and> now < t + ttl)"
| "keeps_in_window key t (Rejects k) = (k \<noteq> key)"
| "keeps_in_window key t (Invalidate k) = (k \<noteq> key)"
| "keeps_in_window key t InvalidateAll = False"

fun settles :: "string \<Rightarrow> 'v cache_event \<Rightarrow> bool" where
  "settles key (Resolves k v now) = (k = key)"
| "settles key (Rejects k) = (k = key)"
| "settles key _ = False"

definition empty_cache :: "'v cache" where
  "empty_cache = \<lparr>data = (\<lambda>k. None), loading = (\<lambda>k. None), settled = (\<lambda>p. None),
                   next_promise = 0, invocations = []\<rparr>"

text \<open>Once the producer of \<open>key\<close> has been called in the window: in flight, or stored
  with a timestamp of the window.\<close>

definition served :: "string \<Rightarrow> int \<Rightarrow> 'v cache \<Rightarrow> bool" where
  "served key t c =
     (loading c key \<noteq> None \<or> (\<exists>v ts. data c key = Some (v, ts) \<and> t \<le> ts))"

section \<open>Rate-limited query queue\<close>

text \<open>
  \<open>VDAMatrixQueryQueue\<close>. Entries are numbered in the order of the \<open>enqueue\<close> calls;
  the number stands for the entry's \<open>queryFn\<close> with its \<open>resolve\<close> and \<open>reject\<close>.
  \<open>phase\<close> tells where the one running \<open>_processQueue\<close> is suspended: nowhere, in
  the \<open>setTimeout\<close> before an entry (with the time the timer is due), or in
  \<open>await queryFn()\<close>. \<open>started\<close> logs each execution with the time stored in
  \<open>_lastQueryTime\<close> when it began; \<open>handles\<close> tells how the promise returned by
  \<open>enqueue\<close> was settled.
\<close>

datatype phase = Idle | Sleeping nat int | Running nat

record 'r query_queue =
  queue :: "nat list"
  processing :: bool
  lastQueryTime :: int
  phase :: phase
  started :: "(nat \<times> int) list"
  handles :: "nat \<Rightarrow> 'r settlement option"
  next_entry :: nat

definition minInterval :: int where
  "minInterval = 300"

definition initial_queue :: "'r query_queue" where
  "initial_queue = \<lparr>queue = [], processing = False, lastQueryTime = 0, phase = Idle,
                     started = [], handles = (\<lambda>e. None), next_entry = 0\<rparr>"

text \<open>The \<open>try\<close> block up to the \<open>await\<close>: the time is recorded and \<open>queryFn\<close> called.\<close>

definition start_query :: "nat \<Rightarrow> int \<Rightarrow> 'r query_queue \<Rightarrow> 'r query_queue" where
  "start_query e now q =
     q\<lparr>lastQueryTime := now, started := started q @ [(e, now)], phase := Running e\<rparr>"

text \<open>The \<open>while\<close> loop from its test to the next \<open>await\<close>, at time \<open>now\<close>.\<close>

definition loop_head :: "int \<Rightarrow> 'r query_queue \<Rightarrow> 'r query_queue" where
  "loop_head now q =
     (case queue q of
        [] \<Rightarrow> q\<lparr>processing := False, phase := Idle\<rparr>
      | e # rest \<Rightarrow>
          (let q1 = q\<lparr>queue := rest\<rparr>;
               elapsed = now - lastQueryTime q1
           in if elapsed < minInterval
              then q1\<lparr>phase := Sleeping e (now + (minInterval - elapsed))\<rparr>
              else start_query e now q1))"

definition processQueue :: "int \<Rightarrow> 'r query_queue \<Rightarrow> 'r query_queue" where
  "processQueue now q =
     (if processing q \<or> queue q = [] then q else loop_head now (q\<lparr>processing := True\<rparr>))"

definition enqueue :: "int \<Rightarrow> 'r query_queue \<Rightarrow> nat \<times> 'r query_queue" where
  "enqueue now q =
     (next_entry q,
      processQueue now (q\<lparr>queue := queue q @ [next_entry q], next_entry := next_entry q + 1\<rparr>))"

text \<open>
  The browser runs the pending \<open>setTimeout\<close> callback at time \<open>now\<close>: the loop goes on
  after its \<open>await\<close> with the \<open>try\<close> block. In another phase no timer is pending.
\<close>

definition timer_fires :: "int \<Rightarrow> 'r query_queue \<Rightarrow> 'r query_queue" where
  "timer_fires now q =
     (case phase q of
        Sleeping e due \<Rightarrow> start_query e now q
      | _ \<Rightarrow> q)"

text \<open>
  The awaited \<open>queryFn()\<close> settles at time \<open>now\<close>: \<open>resolve(result)\<close> or, in the
  \<open>catch\<close> block, \<open>reject(e)\<close>; then the loop goes round.
\<close>

definition query_settles :: "'r settlement \<Rightarrow> int \<Rightarrow> 'r query_queue \<Rightarrow> 'r query_queue" where
  "query_settles r now q =
     (case phase q of
        Running e \<Rightarrow> loop_head now (q\<lparr>handles := (handles q)(e \<mapsto> r)\<rparr>)
      | _ \<Rightarrow> q)"

datatype 'r queue_event = Enqueue int | TimerFires int | QuerySettles "'r settlement" int

fun queue_step :: "'r query_queue \<Rightarrow> 'r queue_event \<Rightarrow> 'r query_queue" where
  "queue_step q (Enqueue now) = snd (enqueue now q)"
| "queue_step q (TimerFires now) = timer_fires now q"
| "queue_step q (QuerySettles r now) = query_settles r now q"

definition queue_run :: "'r queue_event list \<Rightarrow> 'r query_queue" where
  "queue_run evs = foldl queue_step initial_queue evs"

fun is_enqueue :: "'r queue_event \<Rightarrow> bool" where
  "is_enqueue (Enqueue now) = True"
| "is_enqueue _ = False"

text \<open>
  The browser's share: a \<open>setTimeout\<close> callback does not run before its delay has
  passed. \<open>timely_from q evs\<close> says so of every timer callback among the events \<open>evs\<close>
  applied from the state \<open>q\<close>.
\<close>

fun timely_from :: "'r query_queue \<Rightarrow> 'r queue_event list \<Rightarrow> bool" where
  "timely_from q [] = True"
| "timely_from q (ev # evs) =
     ((case ev of
         TimerFires now \<Rightarrow> (case phase q of Sleeping e due \<Rightarrow> due \<le> now | _ \<Rightarrow> True)
       | _ \<Rightarrow> True)
      \<and> timely_from (queue_step q ev) evs)"

definition timely :: "'r queue_event list \<Rightarrow> bool" where
  "timely evs = timely_from initial_queue evs"

text \<open>
  The queue left to itself, with no further \<open>enqueue\<close>: at most \<open>n\<close> times, the browser
  runs the pending timer callback (\<open>late e\<close> ms after it is due, for the entry \<open>e\<close>), or
  the running operation of the entry \<open>e\<close> settles with the outcome \<open>out e\<close>, \<open>dur e\<close> ms
  after it started.
\<close>

fun drain ::
  "nat \<Rightarrow> (nat \<Rightarrow> 'r settlement) \<Rightarrow> (nat \<Rightarrow> nat) \<Rightarrow> (nat \<Rightarrow> nat) \<Rightarrow> 'r query_queue
     \<Rightarrow> 'r query_queue" where
  "drain 0 out late dur q = q"
| "drain (Suc n) out late dur q =
     (case phase q of
        Idle \<Rightarrow> q
      | Sleeping e due \<Rightarrow>
          drain n out late dur (queue_step q (TimerFires (due + int (late e))))
      | Running e \<Rightarrow>
          drain n out late dur
            (queue_step q (QuerySettles (out e) (lastQueryTime q + int (dur e)))))"

text \<open>The number of those steps a phase needs before the loop is at its head again.\<close>

fun phase_cost :: "phase \<Rightarrow> nat" where
  "phase_cost Idle = 0"
| "phase_cost (Sleeping e due) = 2"
| "phase_cost (Running e) = 1"

text \<open>Consecutive start times are at least the minimum interval apart.\<close>

fun gaps_ok :: "(nat \<times> int) list \<Rightarrow> bool" where
  "gaps_ok [] = True"
| "gaps_ok [x] = True"
| "gaps_ok (x # y # r) = (minInterval \<le> snd y - snd x \<and> gaps_ok (y # r))"

text \<open>The entry taken from the queue and not yet started, if the loop sleeps before it.\<close>

fun sleeping :: "phase \<Rightarrow> nat list" where
  "sleeping (Sleeping e due) = [e]"
| "sleeping _ = []"

definition gap_inv :: "'r query_queue \<Rightarrow> bool" where
  "gap_inv q =
     (gaps_ok (started q)
      \<and> (started q \<noteq> [] \<longrightarrow> lastQueryTime q = snd (last (started q)))
      \<and> (\<forall>e due. phase q = Sleeping e due \<longrightarrow> lastQueryTime q + minInterval \<le> due))"

definition fifo_inv :: "'r query_queue \<Rightarrow> bool" where
  "fifo_inv q = (map fst (started q) @ sleeping (phase q) @ queue q = [0..<next_entry q])"

definition single_inv :: "'r query_queue \<Rightarrow> bool" where
  "single_inv q =
     ((\<forall>e \<in> set (map fst (started q)). handles q e = None \<longrightarrow> phase q = Running e)
      \<and> (processing q \<longleftrightarrow> phase q \<noteq> Idle)
      \<and> (phase q = Idle \<longrightarrow> queue q = []))"

definition settle_inv :: "'r query_queue \<Rightarrow> bool" where
  "settle_inv q =
     ((\<forall>e. phase q = Running e \<longrightarrow> handles q e = None \<and> e \<in> set (map fst (started q)))
      \<and> (\<forall>x. handles q x \<noteq> None \<longrightarrow> x \<in> set (map fst (started q))))"

section \<open>Press and hold: the gesture as the browser delivers it\<close>




fun is_repeat_tick :: "timer_job \<Rightarrow> bool" where
  "is_repeat_tick (RepeatTick command) = True"
| "is_repeat_tick _ = False"

text \<open>
  No button is held: no hold in progress, no handle kept, no interval pending, and the
  pending timers carry handles the browser has already given out.
\<close>

definition idle :: "card \<Rightarrow> bool" where
  "idle s =
     (\<not> isHolding s \<and> repeatInterval s = None \<and> fillDelayTimeout s = None
      \<and> (\<forall>t \<in> set (timers s). \<not> is_repeat_tick (job t) \<and> timer_id t < nextTimer s))"

text \<open>The card of \<open>tv1\<close> with the detail view open.\<close>

definition card_open :: card where
  "card_open = card0\<lparr>showRemote := True, toastInDom := True\<rparr>"

text \<open>The timers \<open>_startRepeat\<close> and \<open>_stopRepeat\<close> hand to the browser.\<close>

definition fill_timer :: "nat \<Rightarrow> string \<Rightarrow> timer" where
  "fill_timer i c = \<lparr>timer_id = i, delay = 250, repeats = False, job = FillDelay c\<rparr>"

definition tick_timer :: "nat \<Rightarrow> string \<Rightarrow> timer" where
  "tick_timer i c = \<lparr>timer_id = i, delay = 200, repeats = True, job = RepeatTick c\<rparr>"

definition settle_timer :: "nat \<Rightarrow> timer" where
  "settle_timer i = \<lparr>timer_id = i, delay = 500, repeats = False, job = SettleClear\<rparr>"

section \<open>Dispatcher: what a click does\<close>

text \<open>
  \<open>_sendCommandToDevice(command, deviceId)\<close> up to its \<open>await\<close>: nothing for an empty
  identifier or within the debounce window, else the call is made, to the HA service
  when the device is the HA source device. The second function is the rest of the
  method, run when the call has settled; \<open>n\<close> is the number of calls made before it.
\<close>

definition sendCommandToDevice_call :: "int \<Rightarrow> string \<Rightarrow> string \<Rightarrow> card \<Rightarrow> service_call option \<times> card" where
  "sendCommandToDevice_call now command deviceId s =
     (if deviceId = [] then (None, s)
      else if debounced now s then (None, s)
      else
        (let isHADevice = (sourceIsHADevice s
                           \<and> (case sourceDevice s of
                                 Some src \<Rightarrow> source_id src = deviceId
                               | None \<Rightarrow> False));
             c = (if isHADevice then send_ha_command deviceId command
                  else send_command deviceId command)
         in (Some c, s\<lparr>lastSendTime := Some now, calls := calls s @ [c]\<rparr>)))"

definition sendCommandToDevice_settled :: "env \<Rightarrow> nat \<Rightarrow> string \<Rightarrow> service_call \<Rightarrow> card \<Rightarrow> card" where
  "sendCommandToDevice_settled e n command c s =
     (if svc e n c
      then snd (setTimer (ClearLastSentIf command) 1000 False (render (s\<lparr>lastSent := Some command\<rparr>)))
      else s)"

definition sendCommandToDevice :: "env \<Rightarrow> int \<Rightarrow> string \<Rightarrow> string \<Rightarrow> card \<Rightarrow> card" where
  "sendCommandToDevice e now command deviceId s =
     (case sendCommandToDevice_call now command deviceId s of
        (None, s1) \<Rightarrow> s1
      | (Some c, s1) \<Rightarrow> sendCommandToDevice_settled e (length (calls s)) command c s1)"

text \<open>
  The two branches of the click listener with an explicit device: the call is started,
  the listener sets its own marker and an unguarded timeout while the call is in
  flight, and the rest of \<open>_sendCommandToDevice\<close> runs when the call has settled.
\<close>

definition click_explicit :: "env \<Rightarrow> int \<Rightarrow> string \<Rightarrow> string \<Rightarrow> string \<Rightarrow> card \<Rightarrow> card" where
  "click_explicit e now command deviceId marker s =
     (case sendCommandToDevice_call now command deviceId s of
        (issued, s1) \<Rightarrow>
          (let s2 = snd (setTimer ClearLastSent 1000 False (render (s1\<lparr>lastSent := Some marker\<rparr>)))
           in case issued of
                None \<Rightarrow> s2
              | Some c \<Rightarrow> sendCommandToDevice_settled e (length (calls s)) command c s2))"

text \<open>The click listener of a command button that is not repeatable.\<close>

definition click_command ::
  "env \<Rightarrow> int \<Rightarrow> string \<Rightarrow> string option \<Rightarrow> string option \<Rightarrow> bool \<Rightarrow> card \<Rightarrow> card" where
  "click_command e now command tvDeviceId targetDeviceId isSource s =
     (case click_target command tvDeviceId targetDeviceId isSource (sourceDevice s) of
        ToTvDevice tv \<Rightarrow> click_explicit e now command tv (''power_tv_'' @ tv) s
      | ToTargetDevice tgt \<Rightarrow> click_explicit e now command tgt (command @ ''_'' @ tgt) s
      | ToSourceDevice src \<Rightarrow> sendCommandToDevice e now command src s
      | ToOwnDevice \<Rightarrow> sendCommand e now command s)"

text \<open>
  A press on a command button: \<open>_startRepeat\<close> for a repeatable command, the click
  listener for the others.
\<close>

definition press_button ::
  "env \<Rightarrow> int \<Rightarrow> string \<Rightarrow> string option \<Rightarrow> string option \<Rightarrow> bool \<Rightarrow> card \<Rightarrow> card" where
  "press_button e now command tvDeviceId targetDeviceId isSource s =
     (if command \<in> set repeatableCommands then startRepeat now command s
      else click_command e now command tvDeviceId targetDeviceId isSource s)"

text \<open>The open card of \<open>tv1\<close> with the Roku on the selected input as source device.\<close>

definition card_source :: card where
  "card_source =
     card_open\<lparr>selectedMatrixInput := Some ''route_in1_out1'',
               sourceDevice := Some (HaSource roku), sourceIsHADevice := True,
               sourceCommands := [''channel_up'', ''channel_down'', ''menu'', ''home'', ''power'']\<rparr>"

text \<open>The device a target stands for, given the widget's own device.\<close>

fun target_device_id :: "device \<Rightarrow> click_target \<Rightarrow> string" where
  "target_device_id own (ToTvDevice tv) = tv"
| "target_device_id own (ToTargetDevice tgt) = tgt"
| "target_device_id own (ToSourceDevice src) = src"
| "target_device_id own ToOwnDevice = device_id own"

fun call_device_id :: "service_call \<Rightarrow> string option" where
  "call_device_id (send_command d c) = Some d"
| "call_device_id (send_ha_command d c) = Some d"
| "call_device_id (send_serial_command d c) = d"
| "call_device_id (send_network_command d c) = d"
| "call_device_id (send_raw_serial_command d c) = d"

section \<open>Theorems\<close>

subsection \<open>The click listener's precedence\<close>

lemma click_target_branches:
  "(truthy_str (Some tv) \<longrightarrow>
      click_target command (Some tv) tgt flag src = ToTvDevice tv)
   \<and> (\<not> truthy_str tvo \<and> truthy_str (Some dev) \<longrightarrow>
      click_target command tvo (Some dev) flag src = ToTargetDevice dev)
   \<and> (\<not> truthy_str tvo \<and> \<not> truthy_str tgt \<and> (flag \<or> command \<notin> set volume_set) \<longrightarrow>
      click_target command tvo tgt flag (Some sd) = ToSourceDevice (source_id sd))
   \<and> (\<not> truthy_str tvo \<and> \<not> truthy_str tgt \<and> \<not> flag \<and> command \<in> set volume_set \<longrightarrow>
      click_target command tvo tgt flag (Some sd) = ToOwnDevice)
   \<and> (\<not> truthy_str tvo \<and> \<not> truthy_str tgt \<longrightarrow>
      click_target command tvo tgt flag None = ToOwnDevice)"
  by (simp add: click_target_def)

lemma press_target_repeatable:
  "command \<in> set repeatableCommands \<Longrightarrow> press_target command tv tgt flag src = ToOwnDevice"
  by (simp add: press_target_def)

lemma press_target_click:
  "command \<notin> set repeatableCommands \<Longrightarrow>
     press_target command tv tgt flag src = click_target command tv tgt flag src"
  by (simp add: press_target_def)

subsection \<open>Decimal strings\<close>

lemma digits_of_small: "n < 10 \<Longrightarrow> digits_of n = [digit_char n]"
  by (simp add: digits_of.simps)

lemma string_of_int_examples:
  "string_of_int 1 = ''1''" "string_of_int 2 = ''2''" "string_of_int 3 = ''3''"
  "string_of_int 7 = ''7''"
  by code_simp+

subsection \<open>C1: the input-command list\<close>

lemma resolve_declared_filtered:
  assumes "truthy port"
    and "filter (id_includes (''_out'' @ js_String port))
           (filter is_input_option (map snd (commands m))) \<noteq> []"
  shows "resolve_input_commands m port =
           filter (id_includes (''_out'' @ js_String port))
             (filter is_input_option (map snd (commands m)))"
proof -
  have "filter is_input_option (map snd (commands m)) \<noteq> []"
  proof
    assume e: "filter is_input_option (map snd (commands m)) = []"
    show False using assms(2) unfolding e by simp
  qed
  with assms show ?thesis
    by (simp add: resolve_input_commands_def Let_def)
qed

lemma resolve_declared_fail_open:
  assumes "filter is_input_option (map snd (commands m)) \<noteq> []"
    and "\<not> truthy port \<or> filter (id_includes (''_out'' @ js_String port))
           (filter is_input_option (map snd (commands m))) = []"
  shows "resolve_input_commands m port = filter is_input_option (map snd (commands m))"
  using assms by (auto simp: resolve_input_commands_def Let_def)

lemma resolve_declared_nonempty:
  "filter is_input_option (map snd (commands m)) \<noteq> [] \<Longrightarrow> resolve_input_commands m port \<noteq> []"
  by (auto simp: resolve_input_commands_def Let_def)

lemma resolve_synthesized:
  assumes "filter is_input_option (map snd (commands m)) = []"
  shows "resolve_input_commands m port =
           map generated_cmd (filter (\<lambda>inp. enabled inp \<noteq> Some False) (matrix_inputs m))"
  using assms by (simp add: resolve_input_commands_def Let_def)

lemma resolve_synthesized_example:
  "map (\<lambda>c. (command_id c, cmd_name c, input_value c, generated c))
       (resolve_input_commands matrix_slots JUndefined)
   = [(Some ''route_input_1'', Some ''Roku'', JStr ''1'', True),
      (Some ''route_input_2'', Some ''Input 2'', JStr ''2'', True),
      (Some ''route_input_7'', Some ''Input 7'', JStr ''7'', True)]"
  by (simp add: resolve_synthesized matrix_slots_def slot_def generated_cmd_def
        string_of_int_examples)

text \<open>
  C1 at the device wired to output 1 of a matrix that also has an output 10: the
  resolver tests \<open>command_id.includes('_out1')\<close>, which \<open>route_in1_out10\<close> passes, so
  the list offered for output 1 holds a command that routes output 10. Matching the
  suffix \<open>_out1\<close>, as the claim and the source's own comment describe, keeps
  \<open>route_in1_out1\<close> alone.
\<close>

theorem resolve_input_commands_out1_keeps_out10:
  "map command_id (resolve_input_commands matrix16 (JNum 1))
     = [Some ''route_in1_out1'', Some ''route_in1_out10'']
   \<and> map command_id (filter (id_ends_with (''_out'' @ js_String (JNum 1)))
                       (filter is_input_option (map snd (commands matrix16))))
     = [Some ''route_in1_out1'']"
  by code_simp

subsection \<open>C3: parsing the routing answer\<close>

lemma match_in_no_digit: "\<forall>c \<in> set r. \<not> is_digit c \<Longrightarrow> match_in r = None"
proof (induction r)
  case Nil
  show ?case by simp
next
  case (Cons c cs)
  have "takeWhile is_digit (drop 2 (c # cs)) = []"
  proof (cases "drop 2 (c # cs)")
    case Nil
    show ?thesis unfolding Nil by simp
  next
    case (Cons x xs)
    have "x \<in> set (drop 2 (c # cs))" unfolding Cons by simp
    then have "x \<in> set (c # cs)" by (rule in_set_dropD)
    with Cons.prems have "\<not> is_digit x" by blast
    then show ?thesis unfolding Cons by simp
  qed
  with Cons show ?case by (simp add: Let_def)
qed

lemma match_input_no_digit: "\<forall>c \<in> set r. \<not> is_digit c \<Longrightarrow> match_input r = None"
proof (induction r)
  case Nil
  show ?case by simp
next
  case (Cons c cs)
  have "takeWhile is_digit (dropWhile is_space (drop 5 (c # cs))) = []"
  proof (cases "dropWhile is_space (drop 5 (c # cs))")
    case Nil
    show ?thesis unfolding Nil by simp
  next
    case (Cons x xs)
    have "x \<in> set (dropWhile is_space (drop 5 (c # cs)))" unfolding Cons by simp
    then have "x \<in> set (drop 5 (c # cs))" by (rule set_dropWhileD)
    then have "x \<in> set (c # cs)" by (rule in_set_dropD)
    with Cons.prems have "\<not> is_digit x" by blast
    then show ?thesis unfolding Cons by simp
  qed
  with Cons show ?case by (simp add: Let_def)
qed

lemma match_end_digits_no_digit: "\<forall>c \<in> set r. \<not> is_digit c \<Longrightarrow> match_end_digits r = None"
  by (induction r) (simp_all add: Let_def)

lemma match_digits_no_digit: "\<forall>c \<in> set r. \<not> is_digit c \<Longrightarrow> match_digits r = None"
  by (induction r) simp_all

lemma match_digits_some_digit: "\<exists>c \<in> set r. is_digit c \<Longrightarrow> match_digits r \<noteq> None"
  by (induction r) auto

lemma match_digits_shape:
  "match_digits r = Some d \<Longrightarrow>
     \<exists>pre post. r = pre @ d @ post \<and> (\<forall>c \<in> set pre. \<not> is_digit c) \<and> d \<noteq> []
       \<and> (\<forall>c \<in> set d. is_digit c) \<and> (post = [] \<or> \<not> is_digit (hd post))"
proof (induction r)
  case Nil
  then show ?case by simp
next
  case (Cons c cs)
  show ?case
  proof (cases "is_digit c")
    case True
    with Cons.prems have d: "d = takeWhile is_digit (c # cs)" by simp
    have "c # cs = [] @ d @ dropWhile is_digit (c # cs)" by (simp add: d)
    moreover have "d \<noteq> []" using True d by simp
    moreover have "\<forall>x \<in> set d. is_digit x" unfolding d by (auto dest: set_takeWhileD)
    moreover have "dropWhile is_digit (c # cs) = [] \<or> \<not> is_digit (hd (dropWhile is_digit (c # cs)))"
      using hd_dropWhile [of is_digit "c # cs"] by blast
    ultimately show ?thesis by (metis empty_iff list.set(1))
  next
    case False
    with Cons.prems have "match_digits cs = Some d" by simp
    from Cons.IH [OF this] obtain pre post where
      "cs = pre @ d @ post" "\<forall>c \<in> set pre. \<not> is_digit c" "d \<noteq> []"
      "\<forall>c \<in> set d. is_digit c" "post = [] \<or> \<not> is_digit (hd post)" by blast
    with False have "c # cs = (c # pre) @ d @ post \<and> (\<forall>x \<in> set (c # pre). \<not> is_digit x)"
      by simp
    with \<open>d \<noteq> []\<close> \<open>\<forall>c \<in> set d. is_digit c\<close> \<open>post = [] \<or> \<not> is_digit (hd post)\<close>
    show ?thesis by blast
  qed
qed

lemma match_in_shape:
  "match_in r = Some d \<Longrightarrow>
     \<exists>pre a b post. r = pre @ [a, b] @ d @ post \<and> toLowerCase [a, b] = ''in'' \<and> d \<noteq> []
       \<and> (\<forall>c \<in> set d. is_digit c) \<and> (post = [] \<or> \<not> is_digit (hd post))"
proof (induction r)
  case Nil
  then show ?case by simp
next
  case (Cons c cs)
  let ?ds = "takeWhile is_digit (drop 2 (c # cs))"
  show ?case
  proof (cases "starts_ci ''in'' (c # cs) \<and> ?ds \<noteq> []")
    case True
    with Cons.prems have d: "d = ?ds" by (simp add: Let_def)
    from True obtain b rest where cs: "cs = b # rest"
      by (cases cs) (auto simp: starts_ci_def)
    have low: "toLowerCase [c, b] = ''in''"
      using True by (simp add: starts_ci_def cs)
    have "c # cs = [] @ [c, b] @ d @ dropWhile is_digit rest"
      by (simp add: cs d)
    moreover have "d \<noteq> []" using True d by simp
    moreover have "\<forall>x \<in> set d. is_digit x" unfolding d by (auto dest: set_takeWhileD)
    moreover have "dropWhile is_digit rest = [] \<or> \<not> is_digit (hd (dropWhile is_digit rest))"
      using hd_dropWhile [of is_digit rest] by blast
    ultimately show ?thesis using low by blast
  next
    case False
    with Cons.prems have "match_in cs = Some d" by (auto simp: Let_def)
    from Cons.IH [OF this] obtain pre a b post where
      "cs = pre @ [a, b] @ d @ post" "toLowerCase [a, b] = ''in''" "d \<noteq> []"
      "\<forall>c \<in> set d. is_digit c" "post = [] \<or> \<not> is_digit (hd post)" by blast
    then have "c # cs = (c # pre) @ [a, b] @ d @ post" by simp
    with \<open>toLowerCase [a, b] = ''in''\<close> \<open>d \<noteq> []\<close> \<open>\<forall>c \<in> set d. is_digit c\<close>
      \<open>post = [] \<or> \<not> is_digit (hd post)\<close>
    show ?thesis by blast
  qed
qed


text \<open>
  C3, as stated, at the answer \<open>input 07\<close>: the parser keeps the captured text \<open>07\<close>,
  which is not \<open>7\<close>, and comparing it with \<open>===\<close> against the input value \<open>7\<close> of the
  command for input 7 selects nothing.
\<close>

theorem routing_match_input_07:
  "parse_input_number (js_trim (js_String (JStr ''input 07''))) = Some ''07''
   \<and> input_value (generated_cmd (slot 7 None None)) = JStr ''7''
   \<and> routing_match [generated_cmd (slot 7 None None)] (JStr ''input 07'') = None"
  by code_simp

lemma find_first_iff:
  "xs = pre @ x # post \<Longrightarrow> P x \<Longrightarrow> \<forall>y \<in> set pre. \<not> P y \<Longrightarrow> find P xs = Some x"
  by (induction pre arbitrary: xs) auto

lemma find_none: "\<forall>y \<in> set xs. \<not> P y \<Longrightarrow> find P xs = None"
  by (induction xs) auto

lemma matches_string_valued:
  "string_valued c \<Longrightarrow> matches_input_num inputNum c \<longleftrightarrow> js_String (input_value c) = inputNum"
  by (cases "input_value c") (auto simp: string_valued_def matches_input_num_def)

lemma find_cong_set: "\<forall>x \<in> set xs. P x = Q x \<Longrightarrow> find P xs = find Q xs"
  by (induction xs) auto

text \<open>
  C3 (amended): the parser tries, in order, \<open>in<digits>\<close>, \<open>input <digits>\<close>, digits
  anchored at the end of the text and then any digits, and takes the captured digit
  text of the first pattern that matches; a text without digits gives no match. The
  captured text is kept as it is, not read as a number. Among input commands whose
  input value is a string, the answer selects the first one whose input value,
  stringified, is the captured text, and none when there is no such command or no
  captured text. For \<open>av out1 in3\<close> the captured text is \<open>3\<close>; for \<open>input 07\<close> it is
  \<open>07\<close>, leading zero kept.
\<close>

theorem parse_input_number_tiers:
  "(match_in r = Some d \<longrightarrow> parse_input_number r = Some d)
   \<and> (match_in r = None \<and> match_input r = Some d \<longrightarrow> parse_input_number r = Some d)
   \<and> (match_in r = None \<and> match_input r = None \<and> match_end_digits r = Some d
        \<longrightarrow> parse_input_number r = Some d)
   \<and> (match_in r = None \<and> match_input r = None \<and> match_end_digits r = None
        \<longrightarrow> parse_input_number r = match_digits r)
   \<and> ((\<forall>c \<in> set r. \<not> is_digit c) \<longrightarrow> parse_input_number r = None)
   \<and> (resp \<noteq> [] \<and> (\<forall>c \<in> set cmds. string_valued c)
        \<longrightarrow> routing_match cmds (JStr resp)
            = (case parse_input_number (js_trim resp) of
                 None \<Rightarrow> None
               | Some inputNum \<Rightarrow> find (\<lambda>c. js_String (input_value c) = inputNum) cmds))
   \<and> (resp \<noteq> [] \<and> parse_input_number (js_trim resp) = Some inputNum
        \<and> cmds = pre @ cmd # post \<and> input_value cmd = JStr inputNum
        \<and> (\<forall>c \<in> set pre. string_valued c \<and> input_value c \<noteq> JStr inputNum)
        \<longrightarrow> routing_match cmds (JStr resp) = Some cmd)
   \<and> (parse_input_number (js_trim resp) = Some inputNum
        \<and> (\<forall>c \<in> set cmds. string_valued c \<and> input_value c \<noteq> JStr inputNum)
        \<longrightarrow> routing_match cmds (JStr resp) = None)
   \<and> (parse_input_number (js_trim resp) = None \<longrightarrow> routing_match cmds (JStr resp) = None)
   \<and> parse_input_number ''av out1 in3'' = Some ''3''
   \<and> parse_input_number ''input 07'' = Some ''07''"
proof -
  have tiers: "(match_in r = Some d \<longrightarrow> parse_input_number r = Some d)
     \<and> (match_in r = None \<and> match_input r = Some d \<longrightarrow> parse_input_number r = Some d)
     \<and> (match_in r = None \<and> match_input r = None \<and> match_end_digits r = Some d
          \<longrightarrow> parse_input_number r = Some d)
     \<and> (match_in r = None \<and> match_input r = None \<and> match_end_digits r = None
          \<longrightarrow> parse_input_number r = match_digits r)"
    by (simp add: parse_input_number_def)
  have none: "(\<forall>c \<in> set r. \<not> is_digit c) \<longrightarrow> parse_input_number r = None"
    by (simp add: parse_input_number_def match_in_no_digit match_input_no_digit
          match_end_digits_no_digit match_digits_no_digit)
  have str: "resp \<noteq> [] \<and> (\<forall>c \<in> set cmds. string_valued c)
        \<longrightarrow> routing_match cmds (JStr resp)
            = (case parse_input_number (js_trim resp) of
                 None \<Rightarrow> None
               | Some inputNum \<Rightarrow> find (\<lambda>c. js_String (input_value c) = inputNum) cmds)"
  proof
    assume h: "resp \<noteq> [] \<and> (\<forall>c \<in> set cmds. string_valued c)"
    then have "find (matches_input_num n) cmds
                 = find (\<lambda>c. js_String (input_value c) = n) cmds" for n
      by (intro find_cong_set) (simp add: matches_string_valued)
    with h show "routing_match cmds (JStr resp)
            = (case parse_input_number (js_trim resp) of
                 None \<Rightarrow> None
               | Some inputNum \<Rightarrow> find (\<lambda>c. js_String (input_value c) = inputNum) cmds)"
      by (simp add: routing_match_def split: option.splits)
  qed
  have pos: "resp \<noteq> [] \<and> parse_input_number (js_trim resp) = Some inputNum
        \<and> cmds = pre @ cmd # post \<and> input_value cmd = JStr inputNum
        \<and> (\<forall>c \<in> set pre. string_valued c \<and> input_value c \<noteq> JStr inputNum)
        \<longrightarrow> routing_match cmds (JStr resp) = Some cmd"
  proof
    assume h: "resp \<noteq> [] \<and> parse_input_number (js_trim resp) = Some inputNum
        \<and> cmds = pre @ cmd # post \<and> input_value cmd = JStr inputNum
        \<and> (\<forall>c \<in> set pre. string_valued c \<and> input_value c \<noteq> JStr inputNum)"
    then have m: "matches_input_num inputNum cmd"
      and n: "\<forall>y \<in> set pre. \<not> matches_input_num inputNum y"
      by (simp_all add: matches_input_num_def)
    from h have "cmds = pre @ cmd # post" by simp
    from find_first_iff [OF this, of "matches_input_num inputNum", OF m n] h
    show "routing_match cmds (JStr resp) = Some cmd"
      by (simp add: routing_match_def)
  qed
  have neg: "parse_input_number (js_trim resp) = Some inputNum
        \<and> (\<forall>c \<in> set cmds. string_valued c \<and> input_value c \<noteq> JStr inputNum)
        \<longrightarrow> routing_match cmds (JStr resp) = None"
  proof
    assume h: "parse_input_number (js_trim resp) = Some inputNum
        \<and> (\<forall>c \<in> set cmds. string_valued c \<and> input_value c \<noteq> JStr inputNum)"
    then have "\<forall>y \<in> set cmds. \<not> matches_input_num inputNum y"
      by (simp add: matches_input_num_def)
    from find_none [OF this] h show "routing_match cmds (JStr resp) = None"
      by (simp add: routing_match_def)
  qed
  have nop: "parse_input_number (js_trim resp) = None \<longrightarrow> routing_match cmds (JStr resp) = None"
    by (simp add: routing_match_def)
  have ex1: "parse_input_number ''av out1 in3'' = Some ''3''"
    by code_simp
  have ex2: "parse_input_number ''input 07'' = Some ''07''"
    by code_simp
  from tiers none str pos neg nop ex1 ex2 show ?thesis by blast
qed

theorem parse_input_number_tiers_witness:
  "parse_input_number ''out 2 in4'' = Some ''4''
   \<and> parse_input_number ''Input  5 ok'' = Some ''5''
   \<and> parse_input_number ''hdmi 1 is 6 '' = Some ''6''
   \<and> parse_input_number ''8 selected'' = Some ''8''
   \<and> parse_input_number ''no answer'' = None
   \<and> routing_match [declared_cmd ''route_in2_out1'' ''2'', declared_cmd ''route_in3_out1'' ''3'',
                     declared_cmd ''route_in3_out2'' ''3'']
        (JStr ''av out1 in3'') = Some (declared_cmd ''route_in3_out1'' ''3'')
   \<and> routing_match [declared_cmd ''route_in2_out1'' ''2'', declared_cmd ''route_in3_out1'' ''3'',
                     declared_cmd ''route_in3_out2'' ''3'']
        (JStr ''av out1 in4'') = None
   \<and> routing_match [declared_cmd ''route_in2_out1'' ''2'', declared_cmd ''route_in3_out1'' ''3'',
                     declared_cmd ''route_in3_out2'' ''3'']
        (JStr ''ok'') = None"
proof -
  let ?c2 = "declared_cmd ''route_in2_out1'' ''2''"
  let ?c3 = "declared_cmd ''route_in3_out1'' ''3''"
  let ?c3' = "declared_cmd ''route_in3_out2'' ''3''"
  let ?cmds = "[?c2, ?c3, ?c3']"
  have m: "match_in ''out 2 in4'' = Some ''4''"
    "match_in ''Input  5 ok'' = None" "match_input ''Input  5 ok'' = Some ''5''"
    "match_in ''hdmi 1 is 6 '' = None" "match_input ''hdmi 1 is 6 '' = None"
    "match_end_digits ''hdmi 1 is 6 '' = Some ''6''"
    "match_in ''8 selected'' = None" "match_input ''8 selected'' = None"
    "match_end_digits ''8 selected'' = None" "match_digits ''8 selected'' = Some ''8''"
    "\<forall>c \<in> set ''no answer''. \<not> is_digit c"
    by code_simp+
  have p3: "parse_input_number (js_trim ''av out1 in3'') = Some ''3''" by code_simp
  have p4: "parse_input_number (js_trim ''av out1 in4'') = Some ''4''" by code_simp
  have p0: "parse_input_number (js_trim ''ok'') = None" by code_simp
  have v: "input_value ?c3 = JStr ''3''" "string_valued ?c2 \<and> input_value ?c2 \<noteq> JStr ''3''"
    "\<forall>c \<in> set ?cmds. string_valued c \<and> input_value c \<noteq> JStr ''4''"
    by (simp_all add: declared_cmd_def string_valued_def)
  have sp: "?cmds = [?c2] @ ?c3 # [?c3']" by simp
  have ne: "''av out1 in3'' \<noteq> []" by simp
  note a = parse_input_number_tiers [where r = "''out 2 in4''" and d = "''4''" and cmds = ?cmds
             and resp = "''av out1 in3''" and cmd = ?c3 and inputNum = "''3''"
             and pre = "[?c2]" and post = "[?c3']"]
  note b = parse_input_number_tiers [where r = "''Input  5 ok''" and d = "''5''" and cmds = ?cmds
             and resp = "''av out1 in4''" and cmd = ?c3 and inputNum = "''4''"
             and pre = "[?c2]" and post = "[?c3']"]
  note c = parse_input_number_tiers [where r = "''hdmi 1 is 6 ''" and d = "''6''" and cmds = ?cmds
             and resp = "''ok''" and cmd = ?c3 and inputNum = "''4''"
             and pre = "[?c2]" and post = "[?c3']"]
  note d = parse_input_number_tiers [where r = "''8 selected''" and d = "''8''" and cmds = ?cmds
             and resp = "''ok''" and cmd = ?c3 and inputNum = "''4''"
             and pre = "[?c2]" and post = "[?c3']"]
  note e = parse_input_number_tiers [where r = "''no answer''" and d = "''8''" and cmds = ?cmds
             and resp = "''ok''" and cmd = ?c3 and inputNum = "''4''"
             and pre = "[?c2]" and post = "[?c3']"]
  have "parse_input_number ''out 2 in4'' = Some ''4''" using a m by blast
  moreover have "parse_input_number ''Input  5 ok'' = Some ''5''" using b m by blast
  moreover have "parse_input_number ''hdmi 1 is 6 '' = Some ''6''" using c m by blast
  moreover have "parse_input_number ''8 selected'' = Some ''8''" using d m by simp
  moreover have "parse_input_number ''no answer'' = None" using e m by blast
  moreover have "routing_match ?cmds (JStr ''av out1 in3'') = Some ?c3"
  proof -
    have "\<forall>c \<in> set [?c2]. string_valued c \<and> input_value c \<noteq> JStr ''3''" using v(2) by simp
    with a ne p3 sp v(1) show ?thesis by blast
  qed
  moreover have "routing_match ?cmds (JStr ''av out1 in4'') = None" using b p4 v(3) by blast
  moreover have "routing_match ?cmds (JStr ''ok'') = None" using c p0 by blast
  ultimately show ?thesis by blast
qed

subsection \<open>C8: the command vocabulary of an HA source\<close>

lemma load_ha_source_not_ok:
  "fetch_ha_commands e (ha_commands_url (ha_device_id h)) = NotOk \<Longrightarrow>
     sourceCommands (load_ha_source e h s) = sourceCommands s"
  by (simp add: load_ha_source_def Let_def split: option.splits)

lemma loadSourceDevice_ha:
  assumes "matrixDevice s = Some m" and "selectedMatrixInput s = Some sel" and "sel \<noteq> []"
    and "find (\<lambda>c. command_id c = Some sel) (matrixInputCommands s) = Some inputCmd"
    and "find (\<lambda>i. string_of_int (index i) = js_String (input_value inputCmd)) (matrix_inputs m)
           = Some matrixInput"
    and "input_device_id matrixInput = Some linked" and "linked \<noteq> []"
    and "find (\<lambda>h. ha_device_id h = linked) (haDevices s) = Some h"
  shows "loadSourceDevice e s =
           load_ha_source e h (s\<lparr>sourceDevice := None, sourceCommands := [],
                                 sourceIsHADevice := False\<rparr>)"
  using assms by (simp add: loadSourceDevice_def Let_def truthy_str_def)

lemma card_sel_resolves:
  "loadSourceDevice e card_sel
     = load_ha_source e roku (card_sel\<lparr>sourceDevice := None, sourceCommands := [],
                                        sourceIsHADevice := False\<rparr>)"
proof -
  let ?in1 = "\<lparr>index = 1, input_name = Some ''Roku'', input_device_id = Some ''roku'',
                         enabled = None\<rparr>"
  have "resolve_input_commands matrix4 (matrix_port tv1)
          = [declared_cmd ''route_in1_out1'' ''1'', declared_cmd ''route_in2_out1'' ''2'']"
    by code_simp
  then have cmds: "matrixInputCommands card_sel
                = [declared_cmd ''route_in1_out1'' ''1'', declared_cmd ''route_in2_out1'' ''2'']"
    by (simp add: card_sel_def card0_def)
  have a: "matrixDevice card_sel = Some matrix4"
    "selectedMatrixInput card_sel = Some ''route_in1_out1''" "haDevices card_sel = [roku]"
    by (simp_all add: card_sel_def card0_def)
  have b: "find (\<lambda>c. command_id c = Some ''route_in1_out1'') (matrixInputCommands card_sel)
             = Some (declared_cmd ''route_in1_out1'' ''1'')"
    unfolding cmds by (simp add: declared_cmd_def)
  have one: "string_of_int 1 = ''1''" by code_simp
  have c: "find (\<lambda>i. string_of_int (index i)
                        = js_String (input_value (declared_cmd ''route_in1_out1'' ''1'')))
             (matrix_inputs matrix4) = Some ?in1"
    by (simp add: matrix4_def declared_cmd_def one)
  have d: "find (\<lambda>h. ha_device_id h = ''roku'') (haDevices card_sel) = Some roku"
    unfolding a(3) by (simp add: roku_def)
  show ?thesis
    by (rule loadSourceDevice_ha [OF a(1) a(2) _ b c _ _ d]) simp_all
qed

text \<open>
  C8, as stated, at an endpoint that answers with an error status: \<open>fetch\<close> resolves,
  \<open>resp.ok\<close> is false and nothing is thrown, so the \<open>catch\<close> block with the fallback
  is not entered and the HA source is left with the empty command list.
\<close>

theorem loadSourceDevice_not_ok_empty:
  "fetch_ha_commands env_not_ok ''/api/vda_ir_control/ha_devices/roku/commands'' = NotOk
   \<and> sourceDevice (loadSourceDevice env_not_ok card_sel) = Some (HaSource roku)
   \<and> sourceCommands (loadSourceDevice env_not_ok card_sel) = []"
  unfolding card_sel_resolves
  by (simp add: load_ha_source_def env_not_ok_def Let_def split: option.splits)

text \<open>
  C8 (amended): when the selected input resolves to an HA source device \<open>h\<close>, its
  commands are fetched from \<open>/api/vda_ir_control/ha_devices/{device id}/commands\<close>:
  when the endpoint answers with success, they are the returned names in lower case;
  when the fetch or the reading of its body throws, they are the fixed common set up,
  down, left, right, select, menu, home, back, play_pause, power, not the empty list;
  when the endpoint answers with an error status, nothing is thrown and they are left
  empty.
\<close>

theorem loadSourceDevice_ha_commands:
  assumes "matrixDevice s = Some m" and "selectedMatrixInput s = Some sel" and "sel \<noteq> []"
    and "find (\<lambda>c. command_id c = Some sel) (matrixInputCommands s) = Some inputCmd"
    and "find (\<lambda>i. string_of_int (index i) = js_String (input_value inputCmd)) (matrix_inputs m)
           = Some matrixInput"
    and "input_device_id matrixInput = Some linked" and "linked \<noteq> []"
    and "find (\<lambda>h. ha_device_id h = linked) (haDevices s) = Some h"
  shows "sourceDevice (loadSourceDevice e s) = Some (HaSource h)
         \<and> sourceIsHADevice (loadSourceDevice e s)
         \<and> (fetch_ha_commands e (''/api/vda_ir_control/ha_devices/'' @ ha_device_id h @ ''/commands'')
               = Ok body
             \<longrightarrow> sourceCommands (loadSourceDevice e s)
                   = map toLowerCase (case body of None \<Rightarrow> [] | Some cs \<Rightarrow> cs))
         \<and> (fetch_ha_commands e (''/api/vda_ir_control/ha_devices/'' @ ha_device_id h @ ''/commands'')
               \<in> {FetchThrows, BodyThrows}
             \<longrightarrow> sourceCommands (loadSourceDevice e s)
                   = [''up'', ''down'', ''left'', ''right'', ''select'', ''menu'', ''home'',
                      ''back'', ''play_pause'', ''power''])
         \<and> (fetch_ha_commands e (''/api/vda_ir_control/ha_devices/'' @ ha_device_id h @ ''/commands'')
               = NotOk
             \<longrightarrow> sourceCommands (loadSourceDevice e s) = [])"
  unfolding loadSourceDevice_ha [OF assms]
  by (auto simp: load_ha_source_def ha_commands_url_def common_commands_def Let_def
           split: option.splits fetch_outcome.splits)

theorem loadSourceDevice_ha_commands_witness:
  "sourceCommands (loadSourceDevice env_up card_sel) = [''home'', ''select'', ''back'']
   \<and> sourceCommands (loadSourceDevice env_down card_sel)
       = [''up'', ''down'', ''left'', ''right'', ''select'', ''menu'', ''home'', ''back'',
          ''play_pause'', ''power'']
   \<and> sourceCommands (loadSourceDevice env_not_ok card_sel) = []
   \<and> sourceDevice (loadSourceDevice env_up card_sel) = Some (HaSource roku)"
proof -
  let ?in1 = "\<lparr>index = 1, input_name = Some ''Roku'', input_device_id = Some ''roku'',
                         enabled = None\<rparr>"
  let ?url = "''/api/vda_ir_control/ha_devices/'' @ ha_device_id roku @ ''/commands''"
  have "resolve_input_commands matrix4 (matrix_port tv1)
          = [declared_cmd ''route_in1_out1'' ''1'', declared_cmd ''route_in2_out1'' ''2'']"
    by code_simp
  then have cmds: "matrixInputCommands card_sel
                = [declared_cmd ''route_in1_out1'' ''1'', declared_cmd ''route_in2_out1'' ''2'']"
    by (simp add: card_sel_def card0_def)
  have a: "matrixDevice card_sel = Some matrix4"
    "selectedMatrixInput card_sel = Some ''route_in1_out1''" "haDevices card_sel = [roku]"
    by (simp_all add: card_sel_def card0_def)
  have ne: "''route_in1_out1'' \<noteq> []" "''roku'' \<noteq> []" by simp_all
  have b: "find (\<lambda>c. command_id c = Some ''route_in1_out1'') (matrixInputCommands card_sel)
             = Some (declared_cmd ''route_in1_out1'' ''1'')"
    unfolding cmds by (simp add: declared_cmd_def)
  have one: "string_of_int 1 = ''1''" by code_simp
  have c: "find (\<lambda>i. string_of_int (index i)
                        = js_String (input_value (declared_cmd ''route_in1_out1'' ''1'')))
             (matrix_inputs matrix4) = Some ?in1"
    by (simp add: matrix4_def declared_cmd_def one)
  have l: "input_device_id ?in1 = Some ''roku''" by simp
  have d: "find (\<lambda>h. ha_device_id h = ''roku'') (haDevices card_sel) = Some roku"
    unfolding a(3) by (simp add: roku_def)
  note t = loadSourceDevice_ha_commands [OF a(1) a(2) ne(1) b c l ne(2) d]
  have up: "fetch_ha_commands env_up ?url = Ok (Some [''Home'', ''SELECT'', ''back''])"
    by (simp add: env_up_def roku_def)
  have down: "fetch_ha_commands env_down ?url \<in> {FetchThrows, BodyThrows}"
    by (simp add: env_down_def)
  have nok: "fetch_ha_commands env_not_ok ?url = NotOk"
    by (simp add: env_not_ok_def)
  have low: "map toLowerCase [''Home'', ''SELECT'', ''back''] = [''home'', ''select'', ''back'']"
    by code_simp
  from t [of env_up "Some [''Home'', ''SELECT'', ''back'']"] up low
  have "sourceCommands (loadSourceDevice env_up card_sel) = [''home'', ''select'', ''back'']
        \<and> sourceDevice (loadSourceDevice env_up card_sel) = Some (HaSource roku)"
    by simp
  moreover from t [of env_down None] down
  have "sourceCommands (loadSourceDevice env_down card_sel)
       = [''up'', ''down'', ''left'', ''right'', ''select'', ''menu'', ''home'', ''back'',
          ''play_pause'', ''power'']"
    by blast
  moreover from t [of env_not_ok None] nok
  have "sourceCommands (loadSourceDevice env_not_ok card_sel) = []" by blast
  ultimately show ?thesis by blast
qed

subsection \<open>C10: selecting a matrix input is atomic on error\<close>

lemma load_ha_source_keeps:
  "selectedMatrixInput (load_ha_source e h s) = selectedMatrixInput s"
  "lastSent (load_ha_source e h s) = lastSent s"
  "calls (load_ha_source e h s) = calls s"
  "timers (load_ha_source e h s) = timers s"
  by (simp_all add: load_ha_source_def Let_def split: option.splits fetch_outcome.splits)

lemma load_ir_source_keeps:
  "selectedMatrixInput (load_ir_source e d s) = selectedMatrixInput s"
  "lastSent (load_ir_source e d s) = lastSent s"
  "calls (load_ir_source e d s) = calls s"
  "timers (load_ir_source e d s) = timers s"
  by (simp_all add: load_ir_source_def Let_def split: option.splits fetch_outcome.splits)

lemma loadSourceDevice_keeps:
  "selectedMatrixInput (loadSourceDevice e s) = selectedMatrixInput s"
  "lastSent (loadSourceDevice e s) = lastSent s"
  "calls (loadSourceDevice e s) = calls s"
  "timers (loadSourceDevice e s) = timers s"
  by (simp_all add: loadSourceDevice_def Let_def load_ha_source_keeps load_ir_source_keeps
        split: option.splits)

lemma sendMatrixCommand_cases:
  "sendMatrixCommand e commandId s = s \<or>
   (\<exists>m dev c. matrixDevice s = Some m \<and> w_device s = Some dev
           \<and> matrix_call m dev (matrixInputCommands s) commandId = Some c
           \<and> (if svc e (length (calls s)) c
               then True
               else sendMatrixCommand e commandId s = s\<lparr>calls := calls s @ [c]\<rparr>))"
proof (cases "matrixDevice s")
  case None
  then show ?thesis by (simp add: sendMatrixCommand_def)
next
  case (Some m)
  note m = this
  show ?thesis
  proof (cases "w_device s")
    case None
    with m show ?thesis by (simp add: sendMatrixCommand_def)
  next
    case (Some dev)
    note dev = this
    show ?thesis
    proof (cases "matrix_call m dev (matrixInputCommands s) commandId")
      case None
      with m dev show ?thesis by (simp add: sendMatrixCommand_def)
    next
      case (Some c)
      with m dev show ?thesis by (simp add: sendMatrixCommand_def Let_def)
    qed
  qed
qed

text \<open>
  C10: when the service call of a matrix input selection throws, the selected input,
  the resolved source device and the "last sent" marker are as before (the state
  differs only by the logged call); whenever one of the three differs after
  \<open>_sendMatrixCommand\<close>, a service call was made and resolved; and after a resolved
  call the selected input is the command and the marker is \<open>Matrix: {command}\<close>.
\<close>

theorem sendMatrixCommand_atomic:
  "(matrixDevice s = Some m \<and> w_device s = Some dev
      \<and> matrix_call m dev (matrixInputCommands s) commandId = Some c
      \<and> \<not> svc e (length (calls s)) c
    \<longrightarrow> sendMatrixCommand e commandId s = s\<lparr>calls := calls s @ [c]\<rparr>
        \<and> selectedMatrixInput (sendMatrixCommand e commandId s) = selectedMatrixInput s
        \<and> sourceDevice (sendMatrixCommand e commandId s) = sourceDevice s
        \<and> lastSent (sendMatrixCommand e commandId s) = lastSent s)
   \<and> (selectedMatrixInput (sendMatrixCommand e commandId s) \<noteq> selectedMatrixInput s
        \<or> sourceDevice (sendMatrixCommand e commandId s) \<noteq> sourceDevice s
        \<or> lastSent (sendMatrixCommand e commandId s) \<noteq> lastSent s
    \<longrightarrow> (\<exists>m dev c. matrixDevice s = Some m \<and> w_device s = Some dev
           \<and> matrix_call m dev (matrixInputCommands s) commandId = Some c
           \<and> svc e (length (calls s)) c))
   \<and> (matrixDevice s = Some m \<and> w_device s = Some dev
      \<and> matrix_call m dev (matrixInputCommands s) commandId = Some c
      \<and> svc e (length (calls s)) c
    \<longrightarrow> selectedMatrixInput (sendMatrixCommand e commandId s) = Some commandId
        \<and> lastSent (sendMatrixCommand e commandId s) = Some (''Matrix: '' @ commandId))"
proof -
  have fail: "matrixDevice s = Some m \<and> w_device s = Some dev
      \<and> matrix_call m dev (matrixInputCommands s) commandId = Some c
      \<and> \<not> svc e (length (calls s)) c
    \<longrightarrow> sendMatrixCommand e commandId s = s\<lparr>calls := calls s @ [c]\<rparr>"
    by (simp add: sendMatrixCommand_def Let_def)
  have only: "selectedMatrixInput (sendMatrixCommand e commandId s) \<noteq> selectedMatrixInput s
        \<or> sourceDevice (sendMatrixCommand e commandId s) \<noteq> sourceDevice s
        \<or> lastSent (sendMatrixCommand e commandId s) \<noteq> lastSent s
    \<longrightarrow> (\<exists>m dev c. matrixDevice s = Some m \<and> w_device s = Some dev
           \<and> matrix_call m dev (matrixInputCommands s) commandId = Some c
           \<and> svc e (length (calls s)) c)"
    using sendMatrixCommand_cases [of e commandId s] by (auto split: if_splits)
  have ok: "matrixDevice s = Some m \<and> w_device s = Some dev
      \<and> matrix_call m dev (matrixInputCommands s) commandId = Some c
      \<and> svc e (length (calls s)) c
    \<longrightarrow> selectedMatrixInput (sendMatrixCommand e commandId s) = Some commandId
        \<and> lastSent (sendMatrixCommand e commandId s) = Some (''Matrix: '' @ commandId)"
    by (simp add: sendMatrixCommand_def Let_def setTimer_def render_def loadSourceDevice_keeps)
  have unchanged: "sendMatrixCommand e commandId s = s\<lparr>calls := calls s @ [c]\<rparr>
      \<longrightarrow> selectedMatrixInput (sendMatrixCommand e commandId s) = selectedMatrixInput s
        \<and> sourceDevice (sendMatrixCommand e commandId s) = sourceDevice s
        \<and> lastSent (sendMatrixCommand e commandId s) = lastSent s"
    by simp
  from fail unchanged only ok show ?thesis by blast
qed

theorem sendMatrixCommand_atomic_witness:
  "sendMatrixCommand env_down ''route_in1_out1'' card0
     = card0\<lparr>calls := calls card0 @ [send_serial_command (Some ''mx'') ''route_in1_out1'']\<rparr>
   \<and> selectedMatrixInput (sendMatrixCommand env_down ''route_in1_out1'' card0)
       = selectedMatrixInput card0
   \<and> selectedMatrixInput card0 = Some ''route_in2_out1''
   \<and> selectedMatrixInput (sendMatrixCommand env_up ''route_in1_out1'' card0)
       = Some ''route_in1_out1''
   \<and> lastSent (sendMatrixCommand env_up ''route_in1_out1'' card0)
       = Some (''Matrix: '' @ ''route_in1_out1'')
   \<and> svc env_up (length (calls card0)) (send_serial_command (Some ''mx'') ''route_in1_out1'')"
proof -
  let ?c = "send_serial_command (Some ''mx'') ''route_in1_out1''"
  have "resolve_input_commands matrix4 (matrix_port tv1)
          = [declared_cmd ''route_in1_out1'' ''1'', declared_cmd ''route_in2_out1'' ''2'']"
    by code_simp
  then have cmds: "matrixInputCommands card0
                = [declared_cmd ''route_in1_out1'' ''1'', declared_cmd ''route_in2_out1'' ''2'']"
    by (simp add: card0_def)
  have pre: "matrixDevice card0 = Some matrix4" "w_device card0 = Some tv1"
    by (simp_all add: card0_def)
  have sel: "selectedMatrixInput card0 = Some ''route_in2_out1''"
    by (simp add: card0_def)
  have call: "matrix_call matrix4 tv1 (matrixInputCommands card0) ''route_in1_out1'' = Some ?c"
    unfolding cmds by (simp add: matrix_call_def tv1_def declared_cmd_def Let_def)
  have down: "\<not> svc env_down (length (calls card0)) ?c" by (simp add: env_down_def)
  have up: "svc env_up (length (calls card0)) ?c" by (simp add: env_up_def)
  note a = sendMatrixCommand_atomic [of card0 matrix4 tv1 "''route_in1_out1''" ?c env_down]
  note b = sendMatrixCommand_atomic [of card0 matrix4 tv1 "''route_in1_out1''" ?c env_up]
  from a pre call down have
    "sendMatrixCommand env_down ''route_in1_out1'' card0 = card0\<lparr>calls := calls card0 @ [?c]\<rparr>
     \<and> selectedMatrixInput (sendMatrixCommand env_down ''route_in1_out1'' card0)
         = selectedMatrixInput card0"
    by blast
  moreover from b pre call up have
    "selectedMatrixInput (sendMatrixCommand env_up ''route_in1_out1'' card0)
       = Some ''route_in1_out1''
     \<and> lastSent (sendMatrixCommand env_up ''route_in1_out1'' card0)
       = Some (''Matrix: '' @ ''route_in1_out1'')"
    by blast
  ultimately show ?thesis using sel up by blast
qed

subsection \<open>C6: group power dispatch\<close>

lemma invoked_append: "invoked (a @ b) = invoked a @ invoked b"
  by (induction a rule: invoked.induct) simp_all

lemma waits_of_append: "waits_of (a @ b) = waits_of a @ waits_of b"
  by (induction a rule: waits_of.induct) simp_all

lemma group_power_loop_invoked:
  "invoked (fst (group_power_loop sv dly n i k cnt ms)) = group_calls ms"
proof (induction ms arbitrary: i k cnt)
  case Nil
  show ?case by (simp add: group_calls_def)
next
  case (Cons mem rest)
  have ih: "\<And>i k cnt. invoked (fst (group_power_loop sv dly n i k cnt rest)) = group_calls rest"
    by (rule Cons.IH)
  have step: "group_calls (mem # rest)
                = (case member_call mem of None \<Rightarrow> [] | Some c \<Rightarrow> [c]) @ group_calls rest"
    by (simp add: group_calls_def)
  show ?case unfolding step
    by (cases "member_call mem") (simp_all add: Let_def case_prod_beta invoked_append ih)
qed

lemma succeeded_Cons:
  "succeeded sv k (c # cs) = (if sv k c then 1 else 0) + succeeded sv (k + 1) cs"
  by (simp add: succeeded_def)

lemma group_power_loop_count:
  "snd (snd (group_power_loop sv dly n i k cnt ms)) = cnt + succeeded sv k (group_calls ms)"
proof (induction ms arbitrary: i k cnt)
  case Nil
  show ?case by (simp add: group_calls_def succeeded_def)
next
  case (Cons mem rest)
  have ih: "\<And>i k cnt. snd (snd (group_power_loop sv dly n i k cnt rest))
              = cnt + succeeded sv k (group_calls rest)"
    by (rule Cons.IH)
  have step: "group_calls (mem # rest)
                = (case member_call mem of None \<Rightarrow> [] | Some c \<Rightarrow> [c]) @ group_calls rest"
    by (simp add: group_calls_def)
  show ?case unfolding step
    by (cases "member_call mem") (simp_all add: Let_def case_prod_beta succeeded_Cons ih)
qed

lemma group_power_loop_waits:
  "i + length ms = n \<Longrightarrow>
     waits_of (fst (group_power_loop sv dly n i k cnt ms)) = replicate (length ms - 1) dly"
proof (induction ms arbitrary: i k cnt)
  case Nil
  show ?case by simp
next
  case (Cons mem rest)
  from Cons.prems have n: "Suc i + length rest = n" by simp
  have ih: "\<And>k' cnt'. waits_of (fst (group_power_loop sv dly n (Suc i) k' cnt' rest))
              = replicate (length rest - Suc 0) dly"
    using Cons.IH [OF n] by simp
  show ?case
  proof (cases rest)
    case Nil
    with Cons.prems have "\<not> int i < int n - 1" by simp
    with Nil show ?thesis
      by (cases "member_call mem") (simp_all add: Let_def)
  next
    case (Cons r rs)
    with Cons.prems have lt: "int i < int n - 1" by simp
    have "Suc (length rest - Suc 0) = length rest" using Cons by simp
    then have rep: "dly # replicate (length rest - Suc 0) dly = replicate (length rest) dly"
      by (metis replicate_Suc)
    show ?thesis
      using lt rep
      by (cases "member_call mem")
         (simp_all add: Let_def case_prod_beta waits_of_append ih)
  qed
qed

lemma group_power_loop_last:
  "ms \<noteq> [] \<Longrightarrow> i + length ms = n \<Longrightarrow>
     fst (group_power_loop sv dly n i k cnt ms) \<noteq> []
     \<and> \<not> is_wait (last (fst (group_power_loop sv dly n i k cnt ms)))"
proof (induction ms arbitrary: i k cnt)
  case Nil
  then show ?case by simp
next
  case (Cons mem rest)
  show ?case
  proof (cases rest)
    case Nil
    with Cons.prems have "\<not> int i < int n - 1" by simp
    with Nil show ?thesis
      by (cases "member_call mem") (simp_all add: Let_def)
  next
    case (Cons r rs)
    then have ne: "rest \<noteq> []" by simp
    from Cons.prems have n: "Suc i + length rest = n" by simp
    have ih: "\<And>k' cnt'. fst (group_power_loop sv dly n (Suc i) k' cnt' rest) \<noteq> []
       \<and> \<not> is_wait (last (fst (group_power_loop sv dly n (Suc i) k' cnt' rest)))"
      by (rule Cons.IH [OF ne n])
    show ?thesis
      by (cases "member_call mem") (simp_all add: Let_def case_prod_beta ih)
  qed
qed

lemma succeeded_le: "succeeded sv k cs \<le> length cs"
  unfolding succeeded_def
  by (metis length_enumerate length_filter_le)

lemma group_calls_le: "length (group_calls ms) \<le> length ms"
  by (induction ms) (simp_all add: group_calls_def split: option.splits)

lemma power_entry_matches:
  "power_entry cmds = Some (i, cmd) \<Longrightarrow>
     (i, cmd) \<in> set cmds \<and> (i = ''power'' \<or> map_option toLowerCase (cmd_name cmd) = Some ''power'')"
  unfolding power_entry_def
  by (induction cmds) (auto split: if_splits)

lemma group_power_loop_events:
  "i + length ms = n \<Longrightarrow>
     fst (group_power_loop sv dly n i k cnt ms)
       = concat (map (\<lambda>(j, mem).
            Status (''Sending to '' @ member_name mem @ '' ('' @ string_of_int (int j + 1)
                      @ ''/'' @ string_of_int (int n) @ '')'')
            # (case member_call mem of None \<Rightarrow> [] | Some c \<Rightarrow> [Invoke c])
            @ (if j + 1 < n then [Wait dly] else []))
          (enumerate i ms))"
proof (induction ms arbitrary: i k cnt)
  case Nil
  show ?case by simp
next
  case (Cons mem rest)
  from Cons.prems have n: "Suc i + length rest = n" by simp
  have ih: "\<And>k' cnt'. fst (group_power_loop sv dly n (Suc i) k' cnt' rest)
       = concat (map (\<lambda>(j, mem).
            Status (''Sending to '' @ member_name mem @ '' ('' @ string_of_int (int j + 1)
                      @ ''/'' @ string_of_int (int n) @ '')'')
            # (case member_call mem of None \<Rightarrow> [] | Some c \<Rightarrow> [Invoke c])
            @ (if j + 1 < n then [Wait dly] else []))
          (enumerate (Suc i) rest))"
    by (rule Cons.IH [OF n])
  have w: "(int i < int n - 1) = (i + 1 < n)" by auto
  show ?case
    by (cases "member_call mem") (simp_all add: Let_def case_prod_unfold ih w)
qed

lemma power_entry_found:
  assumes "cmds = pre @ (i, cmd) # post"
    and "i = ''power'' \<or> map_option toLowerCase (cmd_name cmd) = Some ''power''"
    and "\<forall>(j, c) \<in> set pre. j \<noteq> ''power'' \<and> map_option toLowerCase (cmd_name c) \<noteq> Some ''power''"
  shows "power_entry cmds = Some (i, cmd)"
  using assms unfolding power_entry_def
  by (induction pre arbitrary: cmds) auto

lemma power_entry_none:
  assumes "\<forall>(j, c) \<in> set cmds. j \<noteq> ''power'' \<and> map_option toLowerCase (cmd_name c) \<noteq> Some ''power''"
  shows "power_entry cmds = None"
  using assms unfolding power_entry_def
  by (induction cmds) auto

text \<open>
  C6: for a group with at least one resolved member, the dispatch shows its opening
  status and then, member by member in the order of the members, the member's status,
  the member's power call if it has one, and a wait of the group's delay unless the
  member is the last; it ends with the summary. The calls asked for do not depend on
  the outcome of earlier calls. The power call of a controlled member is \<open>send_command\<close>
  with the identifier \<open>power\<close>; that of a serial member is \<open>send_serial_command\<close> with
  the identifier of its first command whose identifier is \<open>power\<close> or whose name is
  \<open>power\<close> in any letter case, and a serial member without such a command gets no
  call. The group's delay is the configured one, or 20 ms when that is missing or zero,
  so never less than the configured one. The count reported in the summary is the
  number of the calls that resolved.
\<close>

theorem sendGroupPowerCommand_trace:
  "(ms \<noteq> [] \<longrightarrow>
      fst (sendGroupPowerCommand sv (Some g) ms)
        = Status ''Sending power commands...''
          # concat (map (\<lambda>(i, mem).
              Status (''Sending to '' @ member_name mem @ '' ('' @ string_of_int (int i + 1)
                        @ ''/'' @ string_of_int (int (length ms)) @ '')'')
              # (case member_call mem of None \<Rightarrow> [] | Some c \<Rightarrow> [Invoke c])
              @ (if i + 1 < length ms then [Wait (group_delay g)] else []))
            (enumerate 0 ms))
          @ [Status (''Sent to ''
                     @ string_of_int (int (snd (sendGroupPowerCommand sv (Some g) ms)))
                     @ ''/'' @ string_of_int (int (length ms)) @ '' devices'')]
      \<and> invoked (fst (sendGroupPowerCommand sv (Some g) ms)) = group_calls ms
      \<and> waits_of (fst (sendGroupPowerCommand sv (Some g) ms))
          = replicate (length ms - 1) (group_delay g)
      \<and> \<not> is_wait (last (butlast (fst (sendGroupPowerCommand sv (Some g) ms))))
      \<and> snd (sendGroupPowerCommand sv (Some g) ms) = succeeded sv 0 (group_calls ms)
      \<and> snd (sendGroupPowerCommand sv (Some g) ms) \<le> length ms)
   \<and> (sequence_delay_ms g = Some d \<longrightarrow> d \<le> group_delay g \<and> (d \<noteq> 0 \<longrightarrow> group_delay g = d))
   \<and> (member_type mem = Controlled \<longrightarrow>
        member_call mem = Some (send_command (member_device_id mem) ''power''))
   \<and> (member_type mem = Serial \<and> member_commands mem = pre @ (i, cmd) # post
        \<and> (i = ''power'' \<or> map_option toLowerCase (cmd_name cmd) = Some ''power'')
        \<and> (\<forall>(j, c) \<in> set pre.
              j \<noteq> ''power'' \<and> map_option toLowerCase (cmd_name c) \<noteq> Some ''power'')
        \<longrightarrow> member_call mem = Some (send_serial_command (Some (member_device_id mem)) i))
   \<and> (member_type mem = Serial
        \<and> (\<forall>(j, c) \<in> set (member_commands mem).
              j \<noteq> ''power'' \<and> map_option toLowerCase (cmd_name c) \<noteq> Some ''power'')
        \<longrightarrow> member_call mem = None)"
proof -
  have run: "ms \<noteq> [] \<longrightarrow>
      fst (sendGroupPowerCommand sv (Some g) ms)
        = Status ''Sending power commands...''
          # concat (map (\<lambda>(i, mem).
              Status (''Sending to '' @ member_name mem @ '' ('' @ string_of_int (int i + 1)
                        @ ''/'' @ string_of_int (int (length ms)) @ '')'')
              # (case member_call mem of None \<Rightarrow> [] | Some c \<Rightarrow> [Invoke c])
              @ (if i + 1 < length ms then [Wait (group_delay g)] else []))
            (enumerate 0 ms))
          @ [Status (''Sent to ''
                     @ string_of_int (int (snd (sendGroupPowerCommand sv (Some g) ms)))
                     @ ''/'' @ string_of_int (int (length ms)) @ '' devices'')]
      \<and> invoked (fst (sendGroupPowerCommand sv (Some g) ms)) = group_calls ms
      \<and> waits_of (fst (sendGroupPowerCommand sv (Some g) ms))
          = replicate (length ms - 1) (group_delay g)
      \<and> \<not> is_wait (last (butlast (fst (sendGroupPowerCommand sv (Some g) ms))))
      \<and> snd (sendGroupPowerCommand sv (Some g) ms) = succeeded sv 0 (group_calls ms)
      \<and> snd (sendGroupPowerCommand sv (Some g) ms) \<le> length ms"
  proof
    assume ne: "ms \<noteq> []"
    obtain ev k cnt where loop:
      "group_power_loop sv (group_delay g) (length ms) 0 0 0 ms = (ev, k, cnt)"
      by (cases "group_power_loop sv (group_delay g) (length ms) 0 0 0 ms") auto
    let ?final = "Status (''Sent to '' @ string_of_int (int cnt) @ ''/''
                          @ string_of_int (int (length ms)) @ '' devices'')"
    have res: "sendGroupPowerCommand sv (Some g) ms
                 = (Status ''Sending power commands...'' # ev @ [?final], cnt)"
      using ne loop by (simp add: sendGroupPowerCommand_def)
    have evs: "ev = concat (map (\<lambda>(i, mem).
              Status (''Sending to '' @ member_name mem @ '' ('' @ string_of_int (int i + 1)
                        @ ''/'' @ string_of_int (int (length ms)) @ '')'')
              # (case member_call mem of None \<Rightarrow> [] | Some c \<Rightarrow> [Invoke c])
              @ (if i + 1 < length ms then [Wait (group_delay g)] else []))
            (enumerate 0 ms))"
      using group_power_loop_events [of 0 ms "length ms" sv "group_delay g" 0 0] loop by simp
    have inv: "invoked ev = group_calls ms"
      using group_power_loop_invoked [of sv "group_delay g" "length ms" 0 0 0 ms] loop by simp
    have wts: "waits_of ev = replicate (length ms - 1) (group_delay g)"
      using group_power_loop_waits [of 0 ms "length ms" sv "group_delay g" 0 0] loop by simp
    have lst: "ev \<noteq> [] \<and> \<not> is_wait (last ev)"
      using group_power_loop_last [of ms 0 "length ms" sv "group_delay g" 0 0] ne loop by simp
    have c: "cnt = succeeded sv 0 (group_calls ms)"
      using group_power_loop_count [of sv "group_delay g" "length ms" 0 0 0 ms] loop by simp
    have le: "cnt \<le> length ms"
      using c succeeded_le [of sv 0 "group_calls ms"] group_calls_le [of ms] by linarith
    have bl: "butlast (Status ''Sending power commands...'' # ev @ [?final])
                = Status ''Sending power commands...'' # ev"
      by (simp add: butlast_append)
    have "last (butlast (Status ''Sending power commands...'' # ev @ [?final])) = last ev"
      unfolding bl using lst by simp
    with lst have nw: "\<not> is_wait (last (butlast (Status ''Sending power commands...'' # ev @ [?final])))"
      by simp
    have f: "fst (sendGroupPowerCommand sv (Some g) ms)
               = Status ''Sending power commands...'' # ev @ [?final]"
      and s: "snd (sendGroupPowerCommand sv (Some g) ms) = cnt"
      unfolding res by simp_all
    have e1: "fst (sendGroupPowerCommand sv (Some g) ms)
        = Status ''Sending power commands...''
          # concat (map (\<lambda>(i, mem).
              Status (''Sending to '' @ member_name mem @ '' ('' @ string_of_int (int i + 1)
                        @ ''/'' @ string_of_int (int (length ms)) @ '')'')
              # (case member_call mem of None \<Rightarrow> [] | Some c \<Rightarrow> [Invoke c])
              @ (if i + 1 < length ms then [Wait (group_delay g)] else []))
            (enumerate 0 ms))
          @ [Status (''Sent to ''
                     @ string_of_int (int (snd (sendGroupPowerCommand sv (Some g) ms)))
                     @ ''/'' @ string_of_int (int (length ms)) @ '' devices'')]"
      unfolding s unfolding f using evs by simp
    have e2: "invoked (fst (sendGroupPowerCommand sv (Some g) ms)) = group_calls ms"
      unfolding f using inv by (simp add: invoked_append)
    have e3: "waits_of (fst (sendGroupPowerCommand sv (Some g) ms))
          = replicate (length ms - 1) (group_delay g)"
      unfolding f using wts by (simp add: waits_of_append)
    have e4: "\<not> is_wait (last (butlast (fst (sendGroupPowerCommand sv (Some g) ms))))"
      unfolding f using nw by simp
    have e5: "snd (sendGroupPowerCommand sv (Some g) ms) = succeeded sv 0 (group_calls ms)"
      unfolding s using c by simp
    have e6: "snd (sendGroupPowerCommand sv (Some g) ms) \<le> length ms"
      unfolding s using le by simp
    from e1 e2 e3 e4 e5 e6
    show "fst (sendGroupPowerCommand sv (Some g) ms)
        = Status ''Sending power commands...''
          # concat (map (\<lambda>(i, mem).
              Status (''Sending to '' @ member_name mem @ '' ('' @ string_of_int (int i + 1)
                        @ ''/'' @ string_of_int (int (length ms)) @ '')'')
              # (case member_call mem of None \<Rightarrow> [] | Some c \<Rightarrow> [Invoke c])
              @ (if i + 1 < length ms then [Wait (group_delay g)] else []))
            (enumerate 0 ms))
          @ [Status (''Sent to ''
                     @ string_of_int (int (snd (sendGroupPowerCommand sv (Some g) ms)))
                     @ ''/'' @ string_of_int (int (length ms)) @ '' devices'')]
      \<and> invoked (fst (sendGroupPowerCommand sv (Some g) ms)) = group_calls ms
      \<and> waits_of (fst (sendGroupPowerCommand sv (Some g) ms))
          = replicate (length ms - 1) (group_delay g)
      \<and> \<not> is_wait (last (butlast (fst (sendGroupPowerCommand sv (Some g) ms))))
      \<and> snd (sendGroupPowerCommand sv (Some g) ms) = succeeded sv 0 (group_calls ms)
      \<and> snd (sendGroupPowerCommand sv (Some g) ms) \<le> length ms"
      by blast
  qed
  have dl: "sequence_delay_ms g = Some d \<longrightarrow> d \<le> group_delay g \<and> (d \<noteq> 0 \<longrightarrow> group_delay g = d)"
    by (simp add: group_delay_def)
  have ctl: "member_type mem = Controlled \<longrightarrow>
        member_call mem = Some (send_command (member_device_id mem) ''power'')"
    by (simp add: member_call_def)
  have ser: "member_type mem = Serial \<and> member_commands mem = pre @ (i, cmd) # post
        \<and> (i = ''power'' \<or> map_option toLowerCase (cmd_name cmd) = Some ''power'')
        \<and> (\<forall>(j, c) \<in> set pre.
              j \<noteq> ''power'' \<and> map_option toLowerCase (cmd_name c) \<noteq> Some ''power'')
        \<longrightarrow> member_call mem = Some (send_serial_command (Some (member_device_id mem)) i)"
  proof
    assume a: "member_type mem = Serial \<and> member_commands mem = pre @ (i, cmd) # post
        \<and> (i = ''power'' \<or> map_option toLowerCase (cmd_name cmd) = Some ''power'')
        \<and> (\<forall>(j, c) \<in> set pre.
              j \<noteq> ''power'' \<and> map_option toLowerCase (cmd_name c) \<noteq> Some ''power'')"
    then have "power_entry (member_commands mem) = Some (i, cmd)"
      by (intro power_entry_found [of _ pre i cmd post]) simp_all
    with a show "member_call mem = Some (send_serial_command (Some (member_device_id mem)) i)"
      by (simp add: member_call_def)
  qed
  have sern: "member_type mem = Serial
        \<and> (\<forall>(j, c) \<in> set (member_commands mem).
              j \<noteq> ''power'' \<and> map_option toLowerCase (cmd_name c) \<noteq> Some ''power'')
        \<longrightarrow> member_call mem = None"
  proof
    assume a: "member_type mem = Serial
        \<and> (\<forall>(j, c) \<in> set (member_commands mem).
              j \<noteq> ''power'' \<and> map_option toLowerCase (cmd_name c) \<noteq> Some ''power'')"
    then have "power_entry (member_commands mem) = None"
      by (intro power_entry_none) simp
    with a show "member_call mem = None"
      by (simp add: member_call_def)
  qed
  from run dl ctl ser sern show ?thesis by blast
qed


theorem sendGroupPowerCommand_trace_witness:
  "fst (sendGroupPowerCommand (\<lambda>k c. k \<noteq> 1)
          (Some \<lparr>group_id = ''all'', sequence_delay_ms = Some 20\<rparr>) group3)
     = [Status ''Sending power commands...'',
        Status ''Sending to TV (1/3)'', Invoke (send_command ''tv1'' ''power''), Wait 20,
        Status ''Sending to Amp (2/3)'', Invoke (send_serial_command (Some ''amp'') ''pwr''),
        Wait 20,
        Status ''Sending to Switch (3/3)'', Invoke (send_serial_command (Some ''sw'') ''power''),
        Status ''Sent to 2/3 devices'']
   \<and> snd (sendGroupPowerCommand (\<lambda>k c. k \<noteq> 1)
            (Some \<lparr>group_id = ''all'', sequence_delay_ms = Some 20\<rparr>) group3) = 2
   \<and> fst (sendGroupPowerCommand (\<lambda>k c. True)
            (Some \<lparr>group_id = ''pair'', sequence_delay_ms = None\<rparr>) group2)
       = [Status ''Sending power commands...'',
          Status ''Sending to Hub (1/2)'', Wait 20,
          Status ''Sending to TV (2/2)'', Invoke (send_command ''tv1'' ''power''),
          Status ''Sent to 1/2 devices'']
   \<and> snd (sendGroupPowerCommand (\<lambda>k c. True)
            (Some \<lparr>group_id = ''pair'', sequence_delay_ms = None\<rparr>) group2) = 1"
proof -
  let ?g = "\<lparr>group_id = ''all'', sequence_delay_ms = Some 20\<rparr>"
  let ?h = "\<lparr>group_id = ''pair'', sequence_delay_ms = None\<rparr>"
  let ?sv = "\<lambda>(k::nat) (c::service_call). k \<noteq> 1"
  let ?ok = "\<lambda>(k::nat) (c::service_call). True"
  note a = sendGroupPowerCommand_trace [where ms = group3 and sv = ?sv and g = ?g and d = 20
             and mem = member_amp and pre = "[(''vol'', serial_cmd ''vol'' ''Volume'')]"
             and i = "''pwr''" and cmd = "serial_cmd ''pwr'' ''Power''"
             and post = "[(''power'', serial_cmd ''power'' ''Toggle'')]"]
  note b = sendGroupPowerCommand_trace [where ms = group2 and sv = ?ok and g = ?h and d = 20
             and mem = member_sw and pre = "[(''in1'', serial_cmd ''in1'' ''Input 1'')]"
             and i = "''power''" and cmd = "serial_cmd ''power'' ''Toggle''"
             and post = "[(''pwr'', serial_cmd ''pwr'' ''power'')]"]
  note c = sendGroupPowerCommand_trace [where ms = group2 and sv = ?ok and g = ?h and d = 20
             and mem = member_tv and pre = "[]"
             and i = "''power''" and cmd = "serial_cmd ''power'' ''Toggle''"
             and post = "[]"]
  note d = sendGroupPowerCommand_trace [where ms = group2 and sv = ?ok and g = ?h and d = 20
             and mem = member_hub and pre = "[]"
             and i = "''power''" and cmd = "serial_cmd ''power'' ''Toggle''"
             and post = "[]"]
  have lc: "map_option toLowerCase (cmd_name (serial_cmd ''pwr'' ''Power'')) = Some ''power''"
    "map_option toLowerCase (cmd_name (serial_cmd ''vol'' ''Volume'')) \<noteq> Some ''power''"
    "map_option toLowerCase (cmd_name (serial_cmd ''in1'' ''Input 1'')) \<noteq> Some ''power''"
    by code_simp+
  have amp: "member_type member_amp = Serial
     \<and> member_commands member_amp = [(''vol'', serial_cmd ''vol'' ''Volume'')]
          @ (''pwr'', serial_cmd ''pwr'' ''Power'') # [(''power'', serial_cmd ''power'' ''Toggle'')]
     \<and> (\<forall>(j, c) \<in> set [(''vol'', serial_cmd ''vol'' ''Volume'')].
            j \<noteq> ''power'' \<and> map_option toLowerCase (cmd_name c) \<noteq> Some ''power'')"
    using lc(2) by (simp add: member_amp_def)
  have sw: "member_type member_sw = Serial
     \<and> member_commands member_sw = [(''in1'', serial_cmd ''in1'' ''Input 1'')]
          @ (''power'', serial_cmd ''power'' ''Toggle'') # [(''pwr'', serial_cmd ''pwr'' ''power'')]
     \<and> (\<forall>(j, c) \<in> set [(''in1'', serial_cmd ''in1'' ''Input 1'')].
            j \<noteq> ''power'' \<and> map_option toLowerCase (cmd_name c) \<noteq> Some ''power'')"
    using lc(3) by (simp add: member_sw_def)
  have hub: "member_type member_hub = Serial
     \<and> (\<forall>(j, c) \<in> set (member_commands member_hub).
            j \<noteq> ''power'' \<and> map_option toLowerCase (cmd_name c) \<noteq> Some ''power'')"
    using lc(3) by (simp add: member_hub_def)
  have tv: "member_type member_tv = Controlled" by (simp add: member_tv_def)
  have mc: "member_call member_amp = Some (send_serial_command (Some ''amp'') ''pwr'')"
    "member_call member_sw = Some (send_serial_command (Some ''sw'') ''power'')"
    "member_call member_tv = Some (send_command ''tv1'' ''power'')"
    "member_call member_hub = None"
  proof -
    from a amp lc(1)
    have "member_call member_amp
            = Some (send_serial_command (Some (member_device_id member_amp)) ''pwr'')"
      by blast
    then show "member_call member_amp = Some (send_serial_command (Some ''amp'') ''pwr'')"
      by (simp add: member_amp_def)
    from b sw
    have "member_call member_sw
            = Some (send_serial_command (Some (member_device_id member_sw)) ''power'')"
      by blast
    then show "member_call member_sw = Some (send_serial_command (Some ''sw'') ''power'')"
      by (simp add: member_sw_def)
    from c tv
    have "member_call member_tv = Some (send_command (member_device_id member_tv) ''power'')"
      by blast
    then show "member_call member_tv = Some (send_command ''tv1'' ''power'')"
      by (simp add: member_tv_def)
    from d hub show "member_call member_hub = None" by blast
  qed
  have nm: "member_name member_tv = ''TV''" "member_name member_amp = ''Amp''"
    "member_name member_sw = ''Switch''" "member_name member_hub = ''Hub''"
    by (simp_all add: member_tv_def member_amp_def member_sw_def member_hub_def)
  have st: "string_of_int 1 = ''1''" "string_of_int 2 = ''2''" "string_of_int 3 = ''3''"
    by code_simp+
  have dl: "group_delay ?g = 20" "group_delay ?h = 20" by (simp_all add: group_delay_def)
  have gc3: "group_calls group3
               = [send_command ''tv1'' ''power'', send_serial_command (Some ''amp'') ''pwr'',
                  send_serial_command (Some ''sw'') ''power'']"
    by (simp add: group_calls_def group3_def mc)
  have gc2: "group_calls group2 = [send_command ''tv1'' ''power'']"
    by (simp add: group_calls_def group2_def mc)
  have s3: "succeeded ?sv 0 (group_calls group3) = 2"
    unfolding gc3 by (simp add: succeeded_def)
  have s2: "succeeded ?ok 0 (group_calls group2) = 1"
    unfolding gc2 by (simp add: succeeded_def)
  have ne: "group3 \<noteq> []" "group2 \<noteq> []" by (simp_all add: group3_def group2_def)
  from a ne(1) have n3: "snd (sendGroupPowerCommand ?sv (Some ?g) group3) = 2"
    unfolding s3 by blast
  from b ne(2) have n2: "snd (sendGroupPowerCommand ?ok (Some ?h) group2) = 1"
    unfolding s2 by blast
  have e3: "Status ''Sending power commands...''
          # concat (map (\<lambda>(i, mem).
              Status (''Sending to '' @ member_name mem @ '' ('' @ string_of_int (int i + 1)
                        @ ''/'' @ string_of_int (int (length group3)) @ '')'')
              # (case member_call mem of None \<Rightarrow> [] | Some c \<Rightarrow> [Invoke c])
              @ (if i + 1 < length group3 then [Wait (group_delay ?g)] else []))
            (enumerate 0 group3))
          @ [Status (''Sent to '' @ string_of_int (int 2)
                     @ ''/'' @ string_of_int (int (length group3)) @ '' devices'')]
      = [Status ''Sending power commands...'',
        Status ''Sending to TV (1/3)'', Invoke (send_command ''tv1'' ''power''), Wait 20,
        Status ''Sending to Amp (2/3)'', Invoke (send_serial_command (Some ''amp'') ''pwr''),
        Wait 20,
        Status ''Sending to Switch (3/3)'', Invoke (send_serial_command (Some ''sw'') ''power''),
        Status ''Sent to 2/3 devices'']"
    unfolding dl by (simp add: group3_def mc nm st)
  have e2: "Status ''Sending power commands...''
          # concat (map (\<lambda>(i, mem).
              Status (''Sending to '' @ member_name mem @ '' ('' @ string_of_int (int i + 1)
                        @ ''/'' @ string_of_int (int (length group2)) @ '')'')
              # (case member_call mem of None \<Rightarrow> [] | Some c \<Rightarrow> [Invoke c])
              @ (if i + 1 < length group2 then [Wait (group_delay ?h)] else []))
            (enumerate 0 group2))
          @ [Status (''Sent to '' @ string_of_int (int 1)
                     @ ''/'' @ string_of_int (int (length group2)) @ '' devices'')]
      = [Status ''Sending power commands...'',
          Status ''Sending to Hub (1/2)'', Wait 20,
          Status ''Sending to TV (2/2)'', Invoke (send_command ''tv1'' ''power''),
          Status ''Sent to 1/2 devices'']"
    unfolding dl by (simp add: group2_def mc nm st)
  from a ne(1) have f3: "fst (sendGroupPowerCommand ?sv (Some ?g) group3)
     = [Status ''Sending power commands...'',
        Status ''Sending to TV (1/3)'', Invoke (send_command ''tv1'' ''power''), Wait 20,
        Status ''Sending to Amp (2/3)'', Invoke (send_serial_command (Some ''amp'') ''pwr''),
        Wait 20,
        Status ''Sending to Switch (3/3)'', Invoke (send_serial_command (Some ''sw'') ''power''),
        Status ''Sent to 2/3 devices'']"
    unfolding n3 unfolding e3 by blast
  from b ne(2) have f2: "fst (sendGroupPowerCommand ?ok (Some ?h) group2)
       = [Status ''Sending power commands...'',
          Status ''Sending to Hub (1/2)'', Wait 20,
          Status ''Sending to TV (2/2)'', Invoke (send_command ''tv1'' ''power''),
          Status ''Sent to 1/2 devices'']"
    unfolding n2 unfolding e2 by blast
  from f3 n3 f2 n2 show ?thesis by blast
qed

subsection \<open>C4: the shared response cache\<close>

lemma fetch_fresh:
  "data c key = Some (v, ts) \<Longrightarrow> now - ts < ttl \<Longrightarrow> fetch key now c = (Cached v, c)"
  by (simp add: fetch_def)

lemma fetch_in_flight:
  "loading c key = Some p \<Longrightarrow> snd (fetch key now c) = c"
  by (simp add: fetch_def split: option.splits prod.splits)

lemma fetch_other_key:
  "k \<noteq> key \<Longrightarrow>
     data (snd (fetch k now c)) key = data c key
     \<and> loading (snd (fetch k now c)) key = loading c key
     \<and> count_list (invocations (snd (fetch k now c))) key = count_list (invocations c) key"
  by (simp add: fetch_def split: option.splits prod.splits)

lemma fetch_invocations:
  "count_list (invocations (snd (fetch k now c))) key \<le> count_list (invocations c) key + 1"
  by (simp add: fetch_def split: option.splits prod.splits)

lemma served_fetch_same:
  assumes "served key t c" and "t \<le> now" and "now < t + ttl"
  shows "snd (fetch key now c) = c"
proof (cases "loading c key")
  case (Some p)
  then show ?thesis by (rule fetch_in_flight)
next
  case None
  with assms(1) obtain v ts where d: "data c key = Some (v, ts)" and "t \<le> ts"
    by (auto simp: served_def)
  with assms(3) have "now - ts < ttl" by simp
  from fetch_fresh [OF d this] show ?thesis by simp
qed

lemma served_step:
  assumes "served key t c" and "keeps_in_window key t e"
  shows "served key t (cache_step c e)
         \<and> count_list (invocations (cache_step c e)) key = count_list (invocations c) key"
proof (cases e)
  case (Fetch k now)
  show ?thesis
  proof (cases "k = key")
    case True
    with assms Fetch have "snd (fetch key now c) = c"
      by (auto intro: served_fetch_same)
    with assms(1) Fetch True show ?thesis by simp
  next
    case False
    from fetch_other_key [OF False, of now c] assms(1) Fetch show ?thesis
      by (simp add: served_def)
  qed
next
  case (Resolves k v now)
  with assms show ?thesis
    by (auto simp: served_def producer_resolves_def split: option.splits)
next
  case (Rejects k)
  with assms show ?thesis
    by (auto simp: served_def producer_rejects_def split: option.splits)
next
  case (Invalidate k)
  with assms show ?thesis
    by (auto simp: served_def invalidate_def)
next
  case InvalidateAll
  with assms show ?thesis by simp
qed

lemma served_run:
  "served key t c \<Longrightarrow> \<forall>e \<in> set evs. keeps_in_window key t e \<Longrightarrow>
     count_list (invocations (cache_run evs c)) key = count_list (invocations c) key"
proof (induction evs arbitrary: c)
  case Nil
  show ?case by (simp add: cache_run_def)
next
  case (Cons e evs)
  from Cons.prems have e: "keeps_in_window key t e" and rest: "\<forall>x \<in> set evs. keeps_in_window key t x"
    by simp_all
  from served_step [OF Cons.prems(1) e] have
    s: "served key t (cache_step c e)"
    and n: "count_list (invocations (cache_step c e)) key = count_list (invocations c) key"
    by simp_all
  from Cons.IH [OF s rest] n show ?case by (simp add: cache_run_def)
qed

lemma step_invokes_or_not:
  assumes "keeps_in_window key t e"
  shows "count_list (invocations (cache_step c e)) key = count_list (invocations c) key
         \<or> (count_list (invocations (cache_step c e)) key = count_list (invocations c) key + 1
            \<and> served key t (cache_step c e))"
proof (cases e)
  case (Fetch k now)
  show ?thesis
  proof (cases "k = key")
    case True
    then show ?thesis using Fetch
      by (auto simp: fetch_def served_def split: option.splits prod.splits)
  next
    case False
    from fetch_other_key [OF False, of now c] Fetch show ?thesis by simp
  qed
next
  case (Resolves k v now)
  then show ?thesis by (simp add: producer_resolves_def split: option.splits)
next
  case (Rejects k)
  then show ?thesis by (simp add: producer_rejects_def split: option.splits)
next
  case (Invalidate k)
  then show ?thesis by (simp add: invalidate_def)
next
  case InvalidateAll
  then show ?thesis by (simp add: invalidateAll_def)
qed

lemma window_run_once:
  "\<forall>e \<in> set evs. keeps_in_window key t e \<Longrightarrow>
     count_list (invocations (cache_run evs c)) key \<le> count_list (invocations c) key + 1"
proof (induction evs arbitrary: c)
  case Nil
  show ?case by (simp add: cache_run_def)
next
  case (Cons e evs)
  from Cons.prems have e: "keeps_in_window key t e" and rest: "\<forall>x \<in> set evs. keeps_in_window key t x"
    by simp_all
  have run: "cache_run (e # evs) c = cache_run evs (cache_step c e)"
    by (simp add: cache_run_def)
  from step_invokes_or_not [OF e, of c] show ?case
  proof
    assume same: "count_list (invocations (cache_step c e)) key = count_list (invocations c) key"
    from Cons.IH [OF rest, of "cache_step c e"] same show ?thesis unfolding run by simp
  next
    assume inv: "count_list (invocations (cache_step c e)) key = count_list (invocations c) key + 1
            \<and> served key t (cache_step c e)"
    then have "count_list (invocations (cache_run evs (cache_step c e))) key
                 = count_list (invocations (cache_step c e)) key"
      using served_run [OF _ rest] by blast
    with inv show ?thesis unfolding run by simp
  qed
qed

lemma unsettled_step:
  assumes "loading c key = Some p" and "\<not> settles key e"
  shows "loading (cache_step c e) key = Some p
         \<and> invocations (cache_step c e) = invocations c \<or>
         (\<exists>k. k \<noteq> key \<and> loading (cache_step c e) key = Some p
              \<and> invocations (cache_step c e) = invocations c @ [k])"
proof (cases e)
  case (Fetch k now)
  show ?thesis
  proof (cases "k = key")
    case True
    with assms(1) Fetch fetch_in_flight [OF assms(1), of now] show ?thesis by simp
  next
    case False
    with assms(1) Fetch show ?thesis
      by (auto simp: fetch_def split: option.splits prod.splits)
  qed
next
  case (Resolves k v now)
  with assms show ?thesis by (simp add: producer_resolves_def split: option.splits)
next
  case (Rejects k)
  with assms show ?thesis by (simp add: producer_rejects_def split: option.splits)
next
  case (Invalidate k)
  with assms show ?thesis by (simp add: invalidate_def)
next
  case InvalidateAll
  with assms show ?thesis by (simp add: invalidateAll_def)
qed

lemma unsettled_data_step:
  assumes "\<not> settles key e"
  shows "data (cache_step c e) key = data c key \<or> data (cache_step c e) key = None"
proof (cases e)
  case (Fetch k now)
  then show ?thesis by (simp add: fetch_def split: option.splits prod.splits)
next
  case (Resolves k v now)
  with assms show ?thesis by (simp add: producer_resolves_def split: option.splits)
next
  case (Rejects k)
  then show ?thesis by (simp add: producer_rejects_def split: option.splits)
next
  case (Invalidate k)
  then show ?thesis by (simp add: invalidate_def)
next
  case InvalidateAll
  then show ?thesis by (simp add: invalidateAll_def)
qed

lemma unsettled_run:
  "loading c key = Some p \<Longrightarrow> \<forall>e \<in> set evs. \<not> settles key e \<Longrightarrow>
     loading (cache_run evs c) key = Some p
     \<and> count_list (invocations (cache_run evs c)) key = count_list (invocations c) key
     \<and> (data (cache_run evs c) key = data c key \<or> data (cache_run evs c) key = None)"
proof (induction evs arbitrary: c)
  case Nil
  then show ?case by (simp add: cache_run_def)
next
  case (Cons e evs)
  from Cons.prems have e: "\<not> settles key e" and rest: "\<forall>x \<in> set evs. \<not> settles key x"
    by simp_all
  have run: "cache_run (e # evs) c = cache_run evs (cache_step c e)"
    by (simp add: cache_run_def)
  from unsettled_step [OF Cons.prems(1) e] have
    l: "loading (cache_step c e) key = Some p"
    and n: "count_list (invocations (cache_step c e)) key = count_list (invocations c) key"
    by auto
  from unsettled_data_step [OF e, of c] have
    d: "data (cache_step c e) key = data c key \<or> data (cache_step c e) key = None" .
  from Cons.IH [OF l rest] n d show ?case unfolding run by auto
qed

text \<open>
  C4, as stated, with a producer that fails: \<open>fetch\<close> is called at time 0, the
  producer rejects and the \<open>catch\<close> callback clears the in-flight marker, and \<open>fetch\<close>
  is called again one millisecond later; the producer has been called twice within the
  time-to-live.
\<close>

theorem fetch_twice_after_reject:
  "invocations (cache_run [Fetch ''devices'' 0, Rejects ''devices'', Fetch ''devices'' 1]
                  (empty_cache :: string cache))
     = [''devices'', ''devices'']
   \<and> (1::int) - 0 < ttl"
  by (simp add: cache_run_def empty_cache_def fetch_def producer_rejects_def ttl_def)

text \<open>
  C4 (amended). For every key: \<open>fetch\<close> returns the stored value, and calls no
  producer, when the value's age is under the time-to-live of 5000 ms. Over any run of
  events that lies within one time-to-live window and in which the producer of the key
  does not fail and the key is not invalidated, the producer of that key is called at
  most once, however often \<open>fetch\<close> is called. When a call of \<open>fetch\<close> has started the
  producer and a second call follows before the producer has settled, the second call
  starts no producer and gets the same promise, so once the producer resolves both
  callers have received that one value.
\<close>

theorem fetch_contract:
  "(data c key = Some (v, ts) \<and> now - ts < 5000
      \<longrightarrow> fetch key now c = (Cached v, c))
   \<and> ((\<forall>e \<in> set evs. keeps_in_window key t e)
      \<longrightarrow> count_list (invocations (cache_run evs c)) key \<le> count_list (invocations c) key + 1)
   \<and> (loading c key = None \<and> fetch key t1 c = (Pending p, c1) \<and> t1 \<le> t2
       \<and> (\<forall>e \<in> set evs'. \<not> settles key e)
      \<longrightarrow> fetch key t2 (cache_run evs' c1) = (Pending p, cache_run evs' c1)
        \<and> count_list (invocations (cache_run evs' c1)) key = count_list (invocations c) key + 1
        \<and> received (producer_resolves key w t3 (cache_run evs' c1)) (Pending p)
            = Some (Resolved w))"
proof -
  have a: "data c key = Some (v, ts) \<and> now - ts < 5000 \<longrightarrow> fetch key now c = (Cached v, c)"
    using fetch_fresh [of c key v ts now] by (simp add: ttl_def)
  have b: "(\<forall>e \<in> set evs. keeps_in_window key t e)
      \<longrightarrow> count_list (invocations (cache_run evs c)) key \<le> count_list (invocations c) key + 1"
    using window_run_once [of evs key t c] by blast
  have c: "loading c key = None \<and> fetch key t1 c = (Pending p, c1) \<and> t1 \<le> t2
       \<and> (\<forall>e \<in> set evs'. \<not> settles key e)
      \<longrightarrow> fetch key t2 (cache_run evs' c1) = (Pending p, cache_run evs' c1)
        \<and> count_list (invocations (cache_run evs' c1)) key = count_list (invocations c) key + 1
        \<and> received (producer_resolves key w t3 (cache_run evs' c1)) (Pending p)
            = Some (Resolved w)"
  proof
    assume h: "loading c key = None \<and> fetch key t1 c = (Pending p, c1) \<and> t1 \<le> t2
       \<and> (\<forall>e \<in> set evs'. \<not> settles key e)"
    then have stale: "\<forall>x ts'. data c key = Some (x, ts') \<longrightarrow> \<not> t1 - ts' < ttl"
      by (auto simp: fetch_def split: option.splits if_splits)
    from h have c1: "c1 = c\<lparr>loading := (loading c)(key \<mapsto> next_promise c),
                  next_promise := next_promise c + 1,
                  invocations := invocations c @ [key]\<rparr>" and p: "p = next_promise c"
      by (auto simp: fetch_def split: option.splits if_splits prod.splits)
    have l1: "loading c1 key = Some p" and d1: "data c1 key = data c key"
      and n1: "count_list (invocations c1) key = count_list (invocations c) key + 1"
      by (simp_all add: c1 p)
    from h have ns: "\<forall>e \<in> set evs'. \<not> settles key e" by simp
    from unsettled_run [OF l1 ns] have
      l2: "loading (cache_run evs' c1) key = Some p"
      and n2: "count_list (invocations (cache_run evs' c1)) key = count_list (invocations c1) key"
      and d2: "data (cache_run evs' c1) key = data c1 key \<or> data (cache_run evs' c1) key = None"
      by simp_all
    have nofresh: "\<forall>x ts'. data (cache_run evs' c1) key = Some (x, ts') \<longrightarrow> \<not> t2 - ts' < ttl"
    proof (intro allI impI)
      fix x ts'
      assume "data (cache_run evs' c1) key = Some (x, ts')"
      with d2 d1 have "data c key = Some (x, ts')" by auto
      with stale have "\<not> t1 - ts' < ttl" by blast
      with h show "\<not> t2 - ts' < ttl" by simp
    qed
    have f2: "fetch key t2 (cache_run evs' c1) = (Pending p, cache_run evs' c1)"
      using l2 nofresh by (auto simp: fetch_def split: option.splits)
    have r: "received (producer_resolves key w t3 (cache_run evs' c1)) (Pending p)
            = Some (Resolved w)"
      using l2 by (simp add: producer_resolves_def)
    from f2 n2 n1 r show "fetch key t2 (cache_run evs' c1) = (Pending p, cache_run evs' c1)
        \<and> count_list (invocations (cache_run evs' c1)) key = count_list (invocations c) key + 1
        \<and> received (producer_resolves key w t3 (cache_run evs' c1)) (Pending p)
            = Some (Resolved w)"
      by simp
  qed
  from a b c show ?thesis by blast
qed

theorem fetch_contract_witness:
  "fetch ''devices'' 3000 ((empty_cache :: string cache)\<lparr>data := (\<lambda>k. None)(''devices'' \<mapsto> (''d1'', 1000))\<rparr>)
     = (Cached ''d1'', empty_cache\<lparr>data := (\<lambda>k. None)(''devices'' \<mapsto> (''d1'', 1000))\<rparr>)
   \<and> count_list (invocations (cache_run [Fetch ''devices'' 0, Resolves ''devices'' ''d1'' 10,
                                           Fetch ''devices'' 4999] (empty_cache :: string cache)))
                  ''devices'' \<le> 1
   \<and> fetch ''devices'' 5 (cache_run [Fetch ''groups'' 2] (snd (fetch ''devices'' 0 (empty_cache :: string cache))))
       = (Pending 0, cache_run [Fetch ''groups'' 2] (snd (fetch ''devices'' 0 empty_cache)))
   \<and> received (producer_resolves ''devices'' ''d1'' 9
                  (cache_run [Fetch ''groups'' 2] (snd (fetch ''devices'' 0 (empty_cache :: string cache)))))
               (Pending 0)
       = Some (Resolved ''d1'')"
proof -
  let ?e = "empty_cache :: string cache"
  let ?c = "?e\<lparr>data := (\<lambda>k. None)(''devices'' \<mapsto> (''d1'', 1000))\<rparr>"
  let ?evs = "[Fetch ''devices'' 0, Resolves ''devices'' ''d1'' 10, Fetch ''devices'' 4999] :: string cache_event list"
  let ?evs' = "[Fetch ''groups'' 2] :: string cache_event list"
  have h1: "data ?c ''devices'' = Some (''d1'', 1000) \<and> (3000::int) - 1000 < 5000" by simp
  have h2: "\<forall>e \<in> set ?evs. keeps_in_window ''devices'' 0 e" by (simp add: ttl_def)
  have h3: "loading ?e ''devices'' = None
            \<and> fetch ''devices'' 0 ?e = (Pending 0, snd (fetch ''devices'' 0 ?e)) \<and> (0::int) \<le> 5
            \<and> (\<forall>e \<in> set ?evs'. \<not> settles ''devices'' e)"
    by (simp add: empty_cache_def fetch_def)
  have n0: "count_list (invocations ?e) ''devices'' = 0" by (simp add: empty_cache_def)
  note a = fetch_contract [where c = ?c and key = "''devices''" and v = "''d1''" and ts = 1000
             and now = 3000 and evs = "[]" and t = 0 and ?t1.0 = 0 and ?t2.0 = 0 and p = 0
             and ?c1.0 = ?c and evs' = "[]" and w = "''d1''" and ?t3.0 = 0]
  note b = fetch_contract [where c = ?e and key = "''devices''" and v = "''d1''" and ts = 1000
             and now = 3000 and evs = ?evs and t = 0 and ?t1.0 = 0 and ?t2.0 = 5 and p = 0
             and ?c1.0 = "snd (fetch ''devices'' 0 ?e)" and evs' = ?evs' and w = "''d1''"
             and ?t3.0 = 9]
  from a h1 have "fetch ''devices'' 3000 ?c = (Cached ''d1'', ?c)" by blast
  moreover from b h2 n0 have
    "count_list (invocations (cache_run ?evs ?e)) ''devices'' \<le> 1" by simp
  moreover from b h3 have
    "fetch ''devices'' 5 (cache_run ?evs' (snd (fetch ''devices'' 0 ?e)))
       = (Pending 0, cache_run ?evs' (snd (fetch ''devices'' 0 ?e)))
     \<and> received (producer_resolves ''devices'' ''d1'' 9
                  (cache_run ?evs' (snd (fetch ''devices'' 0 ?e)))) (Pending 0)
       = Some (Resolved ''d1'')"
    by blast
  ultimately show ?thesis by blast
qed

subsection \<open>C5: the rate-limited query queue\<close>

lemma gaps_ok_snoc:
  "gaps_ok (xs @ [y]) \<longleftrightarrow> gaps_ok xs \<and> (xs \<noteq> [] \<longrightarrow> minInterval \<le> snd y - snd (last xs))"
  by (induction xs rule: gaps_ok.induct) auto

lemma start_query_gap:
  assumes "gap_inv q" and "started q \<noteq> [] \<longrightarrow> lastQueryTime q + minInterval \<le> now"
  shows "gap_inv (start_query e now q)"
  using assms by (auto simp: gap_inv_def start_query_def gaps_ok_snoc)

lemma loop_head_gap:
  assumes "gap_inv q" and "\<forall>e due. phase q \<noteq> Sleeping e due"
  shows "gap_inv (loop_head now q)"
proof (cases "queue q")
  case Nil
  with assms show ?thesis by (simp add: loop_head_def gap_inv_def)
next
  case (Cons e rest)
  let ?q1 = "q\<lparr>queue := rest\<rparr>"
  have g1: "gap_inv ?q1" using assms by (simp add: gap_inv_def)
  show ?thesis
  proof (cases "now - lastQueryTime q < minInterval")
    case True
    with Cons g1 show ?thesis by (simp add: loop_head_def Let_def gap_inv_def)
  next
    case False
    then have "started ?q1 \<noteq> [] \<longrightarrow> lastQueryTime ?q1 + minInterval \<le> now" by simp
    from start_query_gap [OF g1 this] False Cons show ?thesis
      by (simp add: loop_head_def Let_def)
  qed
qed

lemma queue_step_gap:
  assumes "gap_inv q" and "single_inv q"
    and "\<forall>now e due. ev = TimerFires now \<and> phase q = Sleeping e due \<longrightarrow> due \<le> now"
  shows "gap_inv (queue_step q ev)"
proof (cases ev)
  case (Enqueue now)
  let ?q' = "q\<lparr>queue := queue q @ [next_entry q], next_entry := next_entry q + 1\<rparr>"
  have g: "gap_inv ?q'" using assms(1) by (simp add: gap_inv_def)
  show ?thesis
  proof (cases "processing q")
    case True
    with g Enqueue show ?thesis by (simp add: enqueue_def processQueue_def)
  next
    case False
    with assms(2) have idle: "phase q = Idle" by (simp add: single_inv_def)
    have g2: "gap_inv (?q'\<lparr>processing := True\<rparr>)" using g by (simp add: gap_inv_def)
    have "\<forall>e due. phase (?q'\<lparr>processing := True\<rparr>) \<noteq> Sleeping e due" using idle by simp
    from loop_head_gap [OF g2 this] False Enqueue show ?thesis
      by (simp add: enqueue_def processQueue_def)
  qed
next
  case (TimerFires now)
  show ?thesis
  proof (cases "phase q")
    case (Sleeping e due)
    with assms(3) TimerFires have due: "due \<le> now" by simp
    from assms(1) Sleeping have "lastQueryTime q + minInterval \<le> due" by (simp add: gap_inv_def)
    with due have "started q \<noteq> [] \<longrightarrow> lastQueryTime q + minInterval \<le> now" by simp
    from start_query_gap [OF assms(1) this] TimerFires Sleeping show ?thesis
      by (simp add: timer_fires_def)
  qed (use assms(1) TimerFires in \<open>simp_all add: timer_fires_def\<close>)
next
  case (QuerySettles r now)
  show ?thesis
  proof (cases "phase q")
    case (Running e)
    let ?q' = "q\<lparr>handles := (handles q)(e \<mapsto> r)\<rparr>"
    have g: "gap_inv ?q'" using assms(1) by (simp add: gap_inv_def)
    have "\<forall>e' due. phase ?q' \<noteq> Sleeping e' due" using Running by simp
    from loop_head_gap [OF g this] QuerySettles Running show ?thesis
      by (simp add: query_settles_def)
  qed (use assms(1) QuerySettles in \<open>simp_all add: query_settles_def\<close>)
qed

lemma loop_head_fifo:
  assumes "fifo_inv q" and "sleeping (phase q) = []"
  shows "fifo_inv (loop_head now q)"
proof (cases "queue q")
  case Nil
  with assms show ?thesis by (simp add: loop_head_def fifo_inv_def)
next
  case (Cons e rest)
  with assms show ?thesis
    by (simp add: loop_head_def Let_def fifo_inv_def start_query_def)
qed

lemma queue_step_fifo:
  assumes "fifo_inv q" and "single_inv q"
  shows "fifo_inv (queue_step q ev)"
proof (cases ev)
  case (Enqueue now)
  let ?q' = "q\<lparr>queue := queue q @ [next_entry q], next_entry := next_entry q + 1\<rparr>"
  have f: "fifo_inv ?q'" using assms(1) by (simp add: fifo_inv_def)
  show ?thesis
  proof (cases "processing q")
    case True
    with f Enqueue show ?thesis by (simp add: enqueue_def processQueue_def)
  next
    case False
    with assms(2) have idle: "phase q = Idle" by (simp add: single_inv_def)
    have f2: "fifo_inv (?q'\<lparr>processing := True\<rparr>)" using f by (simp add: fifo_inv_def)
    have "sleeping (phase (?q'\<lparr>processing := True\<rparr>)) = []" using idle by simp
    from loop_head_fifo [OF f2 this] False Enqueue show ?thesis
      by (simp add: enqueue_def processQueue_def)
  qed
next
  case (TimerFires now)
  with assms(1) show ?thesis
    by (cases "phase q") (simp_all add: timer_fires_def fifo_inv_def start_query_def)
next
  case (QuerySettles r now)
  show ?thesis
  proof (cases "phase q")
    case (Running e)
    let ?q' = "q\<lparr>handles := (handles q)(e \<mapsto> r)\<rparr>"
    have f: "fifo_inv ?q'" using assms(1) by (simp add: fifo_inv_def)
    have "sleeping (phase ?q') = []" using Running by simp
    from loop_head_fifo [OF f this] QuerySettles Running show ?thesis
      by (simp add: query_settles_def)
  qed (use assms(1) QuerySettles in \<open>simp_all add: query_settles_def\<close>)
qed

lemma loop_head_single:
  assumes "\<forall>e \<in> set (map fst (started q)). handles q e \<noteq> None"
    and "processing q"
  shows "single_inv (loop_head now q)"
proof (cases "queue q")
  case Nil
  with assms(1) show ?thesis by (simp add: loop_head_def single_inv_def)
next
  case (Cons e rest)
  show ?thesis
    using assms Cons
    by (auto simp: loop_head_def Let_def single_inv_def start_query_def)
qed

lemma queue_step_single:
  assumes "single_inv q"
  shows "single_inv (queue_step q ev)"
proof (cases ev)
  case (Enqueue now)
  let ?q' = "q\<lparr>queue := queue q @ [next_entry q], next_entry := next_entry q + 1\<rparr>"
  show ?thesis
  proof (cases "processing q")
    case True
    with assms(1) Enqueue show ?thesis
      by (auto simp: enqueue_def processQueue_def single_inv_def)
  next
    case False
    with assms(1) have idle: "phase q = Idle" by (simp add: single_inv_def)
    have all: "\<forall>e \<in> set (map fst (started (?q'\<lparr>processing := True\<rparr>))).
                 handles (?q'\<lparr>processing := True\<rparr>) e \<noteq> None"
      using assms(1) idle by (auto simp: single_inv_def)
    have "processing (?q'\<lparr>processing := True\<rparr>)" by simp
    from loop_head_single [OF all this] False Enqueue show ?thesis
      by (simp add: enqueue_def processQueue_def)
  qed
next
  case (TimerFires now)
  show ?thesis
  proof (cases "phase q")
    case (Sleeping e due)
    with assms(1) have "\<forall>x \<in> set (map fst (started q)). handles q x \<noteq> None"
      by (auto simp: single_inv_def)
    with assms(1) TimerFires Sleeping show ?thesis
      by (auto simp: timer_fires_def single_inv_def start_query_def)
  qed (use assms(1) TimerFires in \<open>simp_all add: timer_fires_def\<close>)
next
  case (QuerySettles r now)
  show ?thesis
  proof (cases "phase q")
    case (Running e)
    let ?q' = "q\<lparr>handles := (handles q)(e \<mapsto> r)\<rparr>"
    have all: "\<forall>x \<in> set (map fst (started ?q')). handles ?q' x \<noteq> None"
      using assms(1) Running by (auto simp: single_inv_def)
    have "processing ?q'" using assms(1) Running by (simp add: single_inv_def)
    from loop_head_single [OF all this] QuerySettles Running show ?thesis
      by (simp add: query_settles_def)
  qed (use assms(1) QuerySettles in \<open>simp_all add: query_settles_def\<close>)
qed

lemma loop_head_settle:
  assumes "fifo_inv q" and "sleeping (phase q) = []"
    and "\<forall>x. handles q x \<noteq> None \<longrightarrow> x \<in> set (map fst (started q))"
  shows "settle_inv (loop_head now q)"
proof (cases "queue q")
  case Nil
  with assms(3) show ?thesis by (simp add: loop_head_def settle_inv_def)
next
  case (Cons e rest)
  from assms(1,2) Cons have "distinct (map fst (started q) @ e # rest)"
    by (simp add: fifo_inv_def)
  then have "e \<notin> set (map fst (started q))" by auto
  with assms(3) have "handles q e = None" by blast
  with assms(3) Cons show ?thesis
    by (auto simp: loop_head_def Let_def settle_inv_def start_query_def)
qed

lemma queue_step_settle:
  assumes "fifo_inv q" and "single_inv q" and "settle_inv q"
  shows "settle_inv (queue_step q ev)"
proof (cases ev)
  case (Enqueue now)
  let ?q' = "q\<lparr>queue := queue q @ [next_entry q], next_entry := next_entry q + 1\<rparr>"
  have f: "fifo_inv ?q'" using assms(1) by (simp add: fifo_inv_def)
  show ?thesis
  proof (cases "processing q")
    case True
    with assms(3) Enqueue show ?thesis
      by (simp add: enqueue_def processQueue_def settle_inv_def)
  next
    case False
    with assms(2) have idle: "phase q = Idle" by (simp add: single_inv_def)
    have f2: "fifo_inv (?q'\<lparr>processing := True\<rparr>)" using f by (simp add: fifo_inv_def)
    have sl: "sleeping (phase (?q'\<lparr>processing := True\<rparr>)) = []" using idle by simp
    have h: "\<forall>x. handles (?q'\<lparr>processing := True\<rparr>) x \<noteq> None
                  \<longrightarrow> x \<in> set (map fst (started (?q'\<lparr>processing := True\<rparr>)))"
      using assms(3) by (simp add: settle_inv_def)
    from loop_head_settle [OF f2 sl h] False Enqueue show ?thesis
      by (simp add: enqueue_def processQueue_def)
  qed
next
  case (TimerFires now)
  show ?thesis
  proof (cases "phase q")
    case (Sleeping e due)
    from assms(1) Sleeping have "distinct (map fst (started q) @ e # queue q)"
      by (simp add: fifo_inv_def)
    then have "e \<notin> set (map fst (started q))" by auto
    with assms(3) have "handles q e = None" by (auto simp: settle_inv_def)
    with assms(3) TimerFires Sleeping show ?thesis
      by (auto simp: timer_fires_def settle_inv_def start_query_def)
  qed (use assms(3) TimerFires in \<open>simp_all add: timer_fires_def\<close>)
next
  case (QuerySettles r now)
  show ?thesis
  proof (cases "phase q")
    case (Running e)
    let ?q' = "q\<lparr>handles := (handles q)(e \<mapsto> r)\<rparr>"
    have f: "fifo_inv ?q'" using assms(1) by (simp add: fifo_inv_def)
    have sl: "sleeping (phase ?q') = []" using Running by simp
    have h: "\<forall>x. handles ?q' x \<noteq> None \<longrightarrow> x \<in> set (map fst (started ?q'))"
      using assms(3) Running by (auto simp: settle_inv_def)
    from loop_head_settle [OF f sl h] QuerySettles Running show ?thesis
      by (simp add: query_settles_def)
  qed (use assms(3) QuerySettles in \<open>simp_all add: query_settles_def\<close>)
qed

lemma queue_step_invs:
  assumes "fifo_inv q \<and> single_inv q \<and> settle_inv q"
  shows "fifo_inv (queue_step q ev) \<and> single_inv (queue_step q ev) \<and> settle_inv (queue_step q ev)"
  using assms by (simp add: queue_step_fifo queue_step_single queue_step_settle)

lemma queue_invs_foldl:
  "fifo_inv q \<and> single_inv q \<and> settle_inv q \<Longrightarrow>
     fifo_inv (foldl queue_step q evs) \<and> single_inv (foldl queue_step q evs)
     \<and> settle_inv (foldl queue_step q evs)"
proof (induction evs arbitrary: q)
  case Nil
  then show ?case by simp
next
  case (Cons ev evs)
  from Cons.IH [OF queue_step_invs [OF Cons.prems]] show ?case by simp
qed

lemma queue_invs_run:
  "fifo_inv (queue_run evs) \<and> single_inv (queue_run evs) \<and> settle_inv (queue_run evs)"
proof -
  have "fifo_inv (initial_queue :: 'a query_queue) \<and> single_inv (initial_queue :: 'a query_queue)
        \<and> settle_inv (initial_queue :: 'a query_queue)"
    by (simp add: fifo_inv_def single_inv_def settle_inv_def initial_queue_def)
  from queue_invs_foldl [OF this] show ?thesis by (simp add: queue_run_def)
qed

lemma queue_gap_foldl:
  "gap_inv q \<and> single_inv q \<Longrightarrow> timely_from q evs \<Longrightarrow> gap_inv (foldl queue_step q evs)"
proof (induction evs arbitrary: q)
  case Nil
  then show ?case by simp
next
  case (Cons ev evs)
  from Cons.prems(2)
  have t: "\<forall>now e due. ev = TimerFires now \<and> phase q = Sleeping e due \<longrightarrow> due \<le> now"
    and r: "timely_from (queue_step q ev) evs"
    by auto
  from Cons.prems(1) have "gap_inv (queue_step q ev) \<and> single_inv (queue_step q ev)"
    using queue_step_gap [OF _ _ t] queue_step_single by blast
  from Cons.IH [OF this r] show ?case by simp
qed

lemma queue_gap_run: "timely evs \<Longrightarrow> gap_inv (queue_run evs)"
proof -
  assume t: "timely evs"
  have "gap_inv (initial_queue :: 'a query_queue) \<and> single_inv (initial_queue :: 'a query_queue)"
    by (simp add: gap_inv_def single_inv_def initial_queue_def)
  from queue_gap_foldl [OF this] t show ?thesis by (simp add: queue_run_def timely_def)
qed

lemma loop_head_next_entry: "next_entry (loop_head now q) = next_entry q"
  by (cases "queue q") (simp_all add: loop_head_def Let_def start_query_def)

lemma queue_step_next_entry:
  "next_entry (queue_step q ev) = next_entry q + (if is_enqueue ev then 1 else 0)"
proof (cases ev)
  case (Enqueue now)
  then show ?thesis
    by (simp add: enqueue_def processQueue_def loop_head_next_entry)
next
  case (TimerFires now)
  then show ?thesis
    by (cases "phase q") (simp_all add: timer_fires_def start_query_def)
next
  case (QuerySettles r now)
  then show ?thesis
    by (cases "phase q") (simp_all add: query_settles_def loop_head_next_entry)
qed

lemma next_entry_foldl:
  "next_entry (foldl queue_step q evs) = next_entry q + length (filter is_enqueue evs)"
  by (induction evs arbitrary: q) (simp_all add: queue_step_next_entry)

lemma next_entry_run: "next_entry (queue_run evs) = length (filter is_enqueue evs)"
  by (simp add: queue_run_def next_entry_foldl initial_queue_def)

lemma idle_handles:
  assumes "fifo_inv q" and "single_inv q" and "settle_inv q" and "phase q = Idle"
  shows "handles q x \<noteq> None \<longleftrightarrow> x < next_entry q"
proof -
  from assms(2,4) have "queue q = []" by (simp add: single_inv_def)
  with assms(1,4) have st: "set (map fst (started q)) = {0..<next_entry q}"
    by (simp add: fifo_inv_def)
  show ?thesis
  proof
    assume "handles q x \<noteq> None"
    with assms(3) have "x \<in> set (map fst (started q))" by (simp add: settle_inv_def)
    with st show "x < next_entry q" by simp
  next
    assume "x < next_entry q"
    with st have "x \<in> set (map fst (started q))" by simp
    with assms(2,4) show "handles q x \<noteq> None" by (auto simp: single_inv_def)
  qed
qed

lemma idle_handles_case:
  assumes "fifo_inv q" and "single_inv q" and "settle_inv q" and "phase q = Idle"
  shows "handles q x = (case handles q x of
                          Some r \<Rightarrow> Some r
                        | None \<Rightarrow> if x < next_entry q then Some (out x) else None)"
proof (cases "handles q x")
  case None
  with idle_handles [OF assms, of x] have "\<not> x < next_entry q" by simp
  with None show ?thesis by simp
next
  case (Some r)
  then show ?thesis by simp
qed

lemma timer_step:
  assumes "phase q = Sleeping e due"
  shows "phase (queue_step q (TimerFires now)) = Running e
         \<and> queue (queue_step q (TimerFires now)) = queue q
         \<and> handles (queue_step q (TimerFires now)) = handles q
         \<and> started (queue_step q (TimerFires now)) = started q @ [(e, now)]"
  using assms by (simp add: timer_fires_def start_query_def)

lemma settle_step:
  assumes "phase q = Running e"
  shows "handles (queue_step q (QuerySettles r now)) = (handles q)(e \<mapsto> r)
         \<and> 2 * length (queue (queue_step q (QuerySettles r now)))
             + phase_cost (phase (queue_step q (QuerySettles r now)))
           \<le> 2 * length (queue q)"
  using assms
  by (cases "queue q") (simp_all add: query_settles_def loop_head_def Let_def start_query_def)

lemma drain_all:
  assumes "fifo_inv q \<and> single_inv q \<and> settle_inv q"
    and "2 * length (queue q) + phase_cost (phase q) \<le> n"
  shows "phase (drain n out late dur q) = Idle
         \<and> fifo_inv (drain n out late dur q) \<and> single_inv (drain n out late dur q)
         \<and> next_entry (drain n out late dur q) = next_entry q
         \<and> (\<forall>x. handles (drain n out late dur q) x
                  = (case handles q x of
                       Some r \<Rightarrow> Some r
                     | None \<Rightarrow> if x < next_entry q then Some (out x) else None))"
  using assms
proof (induction n arbitrary: q)
  case 0
  then have idle: "phase q = Idle" by (cases "phase q") simp_all
  from 0 idle
  have "\<forall>x. handles q x = (case handles q x of
                       Some r \<Rightarrow> Some r
                     | None \<Rightarrow> if x < next_entry q then Some (out x) else None)"
    using idle_handles_case [of q] by blast
  with 0 idle show ?case by simp
next
  case (Suc n)
  show ?case
  proof (cases "phase q")
    case Idle
    from Suc.prems Idle
    have "\<forall>x. handles q x = (case handles q x of
                       Some r \<Rightarrow> Some r
                     | None \<Rightarrow> if x < next_entry q then Some (out x) else None)"
      using idle_handles_case [of q] by blast
    with Suc.prems Idle show ?thesis by simp
  next
    case (Sleeping e due)
    let ?q1 = "queue_step q (TimerFires (due + int (late e)))"
    have inv1: "fifo_inv ?q1 \<and> single_inv ?q1 \<and> settle_inv ?q1"
      by (rule queue_step_invs [OF Suc.prems(1)])
    from timer_step [OF Sleeping, of "due + int (late e)"]
    have ph: "phase ?q1 = Running e" and qu: "queue ?q1 = queue q"
      and ha: "handles ?q1 = handles q" by simp_all
    have ne: "next_entry ?q1 = next_entry q"
      using queue_step_next_entry [of q "TimerFires (due + int (late e))"] by simp
    from Suc.prems(2) Sleeping have "2 * length (queue ?q1) + phase_cost (phase ?q1) \<le> n"
      unfolding ph qu by simp
    from Suc.IH [OF inv1 this]
    have "phase (drain n out late dur ?q1) = Idle
         \<and> fifo_inv (drain n out late dur ?q1) \<and> single_inv (drain n out late dur ?q1)
         \<and> next_entry (drain n out late dur ?q1) = next_entry q
         \<and> (\<forall>x. handles (drain n out late dur ?q1) x
                  = (case handles q x of
                       Some r \<Rightarrow> Some r
                     | None \<Rightarrow> if x < next_entry q then Some (out x) else None))"
      unfolding ha ne .
    moreover have "drain (Suc n) out late dur q = drain n out late dur ?q1"
      using Sleeping by simp
    ultimately show ?thesis by simp
  next
    case (Running e)
    let ?q1 = "queue_step q (QuerySettles (out e) (lastQueryTime q + int (dur e)))"
    have inv1: "fifo_inv ?q1 \<and> single_inv ?q1 \<and> settle_inv ?q1"
      by (rule queue_step_invs [OF Suc.prems(1)])
    from settle_step [OF Running, of "out e" "lastQueryTime q + int (dur e)"]
    have ha: "handles ?q1 = (handles q)(e \<mapsto> out e)"
      and co: "2 * length (queue ?q1) + phase_cost (phase ?q1) \<le> 2 * length (queue q)"
      by simp_all
    have ne: "next_entry ?q1 = next_entry q"
      using queue_step_next_entry [of q "QuerySettles (out e) (lastQueryTime q + int (dur e))"]
      by simp
    from Suc.prems(2) Running co have "2 * length (queue ?q1) + phase_cost (phase ?q1) \<le> n"
      by simp
    from Suc.IH [OF inv1 this]
    have ih: "phase (drain n out late dur ?q1) = Idle
         \<and> fifo_inv (drain n out late dur ?q1) \<and> single_inv (drain n out late dur ?q1)
         \<and> next_entry (drain n out late dur ?q1) = next_entry q
         \<and> (\<forall>x. handles (drain n out late dur ?q1) x
                  = (case ((handles q)(e \<mapsto> out e)) x of
                       Some r \<Rightarrow> Some r
                     | None \<Rightarrow> if x < next_entry q then Some (out x) else None))"
      unfolding ha ne .
    from Suc.prems(1) Running have he: "handles q e = None"
      and "e \<in> set (map fst (started q))"
      by (simp_all add: settle_inv_def)
    moreover from Suc.prems(1) have "set (map fst (started q)) \<subseteq> {0..<next_entry q}"
      unfolding fifo_inv_def by (metis atLeastLessThan_upt set_append sup_ge1)
    ultimately have lt: "e < next_entry q" by auto
    have "\<forall>x. (case ((handles q)(e \<mapsto> out e)) x of
                       Some r \<Rightarrow> Some r
                     | None \<Rightarrow> if x < next_entry q then Some (out x) else None)
              = (case handles q x of
                       Some r \<Rightarrow> Some r
                     | None \<Rightarrow> if x < next_entry q then Some (out x) else None)"
      using he lt by simp
    with ih have "phase (drain n out late dur ?q1) = Idle
         \<and> fifo_inv (drain n out late dur ?q1) \<and> single_inv (drain n out late dur ?q1)
         \<and> next_entry (drain n out late dur ?q1) = next_entry q
         \<and> (\<forall>x. handles (drain n out late dur ?q1) x
                  = (case handles q x of
                       Some r \<Rightarrow> Some r
                     | None \<Rightarrow> if x < next_entry q then Some (out x) else None))"
      by simp
    moreover have "drain (Suc n) out late dur q = drain n out late dur ?q1"
      using Running by simp
    ultimately show ?thesis by simp
  qed
qed

lemma drain_gap:
  "gap_inv q \<and> single_inv q \<Longrightarrow> gap_inv (drain n out late dur q)"
proof (induction n arbitrary: q)
  case 0
  then show ?case by simp
next
  case (Suc n)
  show ?case
  proof (cases "phase q")
    case Idle
    with Suc.prems show ?thesis by simp
  next
    case (Sleeping e due)
    let ?ev = "TimerFires (due + int (late e)) :: 'a queue_event"
    have t: "\<forall>now e' due'. ?ev = TimerFires now \<and> phase q = Sleeping e' due' \<longrightarrow> due' \<le> now"
      using Sleeping by simp
    from Suc.prems have "gap_inv (queue_step q ?ev) \<and> single_inv (queue_step q ?ev)"
      using queue_step_gap [OF _ _ t] queue_step_single by blast
    from Suc.IH [OF this] Sleeping show ?thesis by simp
  next
    case (Running e)
    let ?ev = "QuerySettles (out e) (lastQueryTime q + int (dur e))"
    have t: "\<forall>now e' due'. ?ev = TimerFires now \<and> phase q = Sleeping e' due' \<longrightarrow> due' \<le> now"
      by simp
    from Suc.prems have "gap_inv (queue_step q ?ev) \<and> single_inv (queue_step q ?ev)"
      using queue_step_gap [OF _ _ t] queue_step_single by blast
    from Suc.IH [OF this] Running show ?thesis by simp
  qed
qed

lemma gaps_ok_nth:
  "gaps_ok xs \<Longrightarrow> Suc i < length xs \<Longrightarrow> minInterval \<le> snd (xs ! Suc i) - snd (xs ! i)"
proof (induction xs arbitrary: i rule: gaps_ok.induct)
  case 1
  then show ?case by simp
next
  case (2 x)
  then show ?case by simp
next
  case (3 x y r)
  show ?case
  proof (cases i)
    case 0
    with "3.prems" show ?thesis by simp
  next
    case (Suc j)
    with "3.prems" have "gaps_ok (y # r)" and "Suc j < length (y # r)" by simp_all
    from "3.IH" [OF this] Suc show ?thesis by simp
  qed
qed

lemma query_settles_rejected:
  assumes "phase q = Running e"
  shows "handles (query_settles Rejected now q) = (handles q)(e \<mapsto> Rejected)
         \<and> (queue q = [] \<longrightarrow> phase (query_settles Rejected now q) = Idle)
         \<and> (\<forall>e' rest. queue q = e' # rest \<longrightarrow>
              queue (query_settles Rejected now q) = rest
              \<and> (phase (query_settles Rejected now q) = Running e'
                 \<or> phase (query_settles Rejected now q)
                     = Sleeping e' (lastQueryTime q + minInterval)))"
  using assms
  by (cases "queue q") (auto simp: query_settles_def loop_head_def Let_def start_query_def)

lemma timer_fires_sleeping:
  "phase q = Sleeping e due \<Longrightarrow>
     phase (timer_fires now q) = Running e \<and> started (timer_fires now q) = started q @ [(e, now)]"
  by (simp add: timer_fires_def start_query_def)


text \<open>
  C5: every \<open>enqueue\<close> call adds one entry, and after any sequence of \<open>enqueue\<close> calls,
  timer callbacks and settled operations, the operations executed so far, followed by
  the one the loop is waiting to start and by the entries still queued, are the
  enqueued operations in the order of the \<open>enqueue\<close> calls. An operation that was
  started and has not settled is the one the loop is awaiting, so no two run at once.
  When no timer callback runs before it is due, the start times of two consecutive
  executions are at least 300 ms apart. Left to itself, with the timer callbacks run
  and the operations settling, the queue executes every enqueued operation, in the
  order of the \<open>enqueue\<close> calls, and settles each handle with the outcome of its own
  operation: an operation that throws rejects its own handle and no other, and the
  loop goes on with the next queued entry, which it starts at once or after the timer
  it sets for the rest of the 300 ms.
\<close>

theorem query_queue_fifo_spacing:
  "map fst (started (queue_run evs)) @ sleeping (phase (queue_run evs)) @ queue (queue_run evs)
     = [0..<length (filter is_enqueue evs)]
   \<and> fst (enqueue now (queue_run evs)) = length (filter is_enqueue evs)
   \<and> (\<forall>e \<in> set (map fst (started (queue_run evs))).
        handles (queue_run evs) e = None \<longrightarrow> phase (queue_run evs) = Running e)
   \<and> (timely evs \<longrightarrow>
        gaps_ok (started (queue_run evs))
        \<and> (Suc i < length (started (queue_run evs)) \<longrightarrow>
             300 \<le> snd (started (queue_run evs) ! Suc i) - snd (started (queue_run evs) ! i)))
   \<and> (2 * length (queue (queue_run evs)) + 2 \<le> n \<longrightarrow>
        phase (drain n out late dur (queue_run evs)) = Idle
        \<and> map fst (started (drain n out late dur (queue_run evs)))
            = [0..<length (filter is_enqueue evs)]
        \<and> (\<forall>x < length (filter is_enqueue evs).
              handles (drain n out late dur (queue_run evs)) x
                = (case handles (queue_run evs) x of Some r \<Rightarrow> Some r | None \<Rightarrow> Some (out x)))
        \<and> (timely evs \<longrightarrow>
             gaps_ok (started (drain n out late dur (queue_run evs)))
             \<and> (Suc i < length (started (drain n out late dur (queue_run evs))) \<longrightarrow>
                  300 \<le> snd (started (drain n out late dur (queue_run evs)) ! Suc i)
                          - snd (started (drain n out late dur (queue_run evs)) ! i))))
   \<and> (phase (queue_run evs) = Running e \<longrightarrow>
        handles (query_settles Rejected now (queue_run evs))
          = (handles (queue_run evs))(e \<mapsto> Rejected)
        \<and> (\<forall>e' rest. queue (queue_run evs) = e' # rest \<longrightarrow>
             queue (query_settles Rejected now (queue_run evs)) = rest
             \<and> (phase (query_settles Rejected now (queue_run evs)) = Running e'
                \<or> phase (query_settles Rejected now (queue_run evs))
                    = Sleeping e' (lastQueryTime (queue_run evs) + 300))))
   \<and> (phase (queue_run evs) = Sleeping e due \<longrightarrow>
        phase (timer_fires now (queue_run evs)) = Running e
        \<and> started (timer_fires now (queue_run evs)) = started (queue_run evs) @ [(e, now)])"
proof -
  let ?q = "queue_run evs"
  let ?d = "drain n out late dur (queue_run evs)"
  from queue_invs_run [of evs] have f: "fifo_inv ?q"
    and s: "single_inv ?q" and st: "settle_inv ?q" by simp_all
  have ne: "next_entry ?q = length (filter is_enqueue evs)" by (rule next_entry_run)
  have a: "map fst (started ?q) @ sleeping (phase ?q) @ queue ?q
             = [0..<length (filter is_enqueue evs)]"
    using f unfolding ne [symmetric] by (simp add: fifo_inv_def)
  have a2: "fst (enqueue now ?q) = length (filter is_enqueue evs)"
    using ne by (simp add: enqueue_def)
  have d: "\<forall>e \<in> set (map fst (started ?q)). handles ?q e = None \<longrightarrow> phase ?q = Running e"
    using s by (simp add: single_inv_def)
  have b: "timely evs \<longrightarrow>
        gaps_ok (started ?q)
        \<and> (Suc i < length (started ?q) \<longrightarrow>
             300 \<le> snd (started ?q ! Suc i) - snd (started ?q ! i))"
  proof
    assume "timely evs"
    from queue_gap_run [OF this] have g: "gaps_ok (started ?q)" by (simp add: gap_inv_def)
    from gaps_ok_nth [OF g, of i] g
    show "gaps_ok (started ?q)
        \<and> (Suc i < length (started ?q) \<longrightarrow>
             300 \<le> snd (started ?q ! Suc i) - snd (started ?q ! i))"
      by (simp add: minInterval_def)
  qed
  have p: "2 * length (queue ?q) + 2 \<le> n \<longrightarrow>
        phase ?d = Idle
        \<and> map fst (started ?d) = [0..<length (filter is_enqueue evs)]
        \<and> (\<forall>x < length (filter is_enqueue evs).
              handles ?d x
                = (case handles ?q x of Some r \<Rightarrow> Some r | None \<Rightarrow> Some (out x)))
        \<and> (timely evs \<longrightarrow>
             gaps_ok (started ?d)
             \<and> (Suc i < length (started ?d) \<longrightarrow>
                  300 \<le> snd (started ?d ! Suc i) - snd (started ?d ! i)))"
  proof
    assume n: "2 * length (queue ?q) + 2 \<le> n"
    have "phase_cost (phase ?q) \<le> 2" by (cases "phase ?q") simp_all
    with n have fuel: "2 * length (queue ?q) + phase_cost (phase ?q) \<le> n" by simp
    from f s st have "fifo_inv ?q \<and> single_inv ?q \<and> settle_inv ?q" by simp
    from drain_all [OF this fuel, of out late dur]
    have idle: "phase ?d = Idle" and fd: "fifo_inv ?d" and sd: "single_inv ?d"
      and nd: "next_entry ?d = next_entry ?q"
      and hd: "\<forall>x. handles ?d x
                  = (case handles ?q x of
                       Some r \<Rightarrow> Some r
                     | None \<Rightarrow> if x < next_entry ?q then Some (out x) else None)"
      by simp_all
    from sd idle have "queue ?d = []" by (simp add: single_inv_def)
    with fd idle nd ne have m: "map fst (started ?d) = [0..<length (filter is_enqueue evs)]"
      by (simp add: fifo_inv_def)
    have h: "\<forall>x < length (filter is_enqueue evs).
              handles ?d x = (case handles ?q x of Some r \<Rightarrow> Some r | None \<Rightarrow> Some (out x))"
    proof (intro allI impI)
      fix x assume "x < length (filter is_enqueue evs)"
      with ne hd show "handles ?d x
                         = (case handles ?q x of Some r \<Rightarrow> Some r | None \<Rightarrow> Some (out x))"
        by (cases "handles ?q x") simp_all
    qed
    have g: "timely evs \<longrightarrow>
             gaps_ok (started ?d)
             \<and> (Suc i < length (started ?d) \<longrightarrow>
                  300 \<le> snd (started ?d ! Suc i) - snd (started ?d ! i))"
    proof
      assume "timely evs"
      from queue_gap_run [OF this] s have "gap_inv ?q \<and> single_inv ?q" by simp
      from drain_gap [OF this, of n out late dur] have g: "gaps_ok (started ?d)"
        by (simp add: gap_inv_def)
      from gaps_ok_nth [OF g, of i] g
      show "gaps_ok (started ?d)
             \<and> (Suc i < length (started ?d) \<longrightarrow>
                  300 \<le> snd (started ?d ! Suc i) - snd (started ?d ! i))"
        by (simp add: minInterval_def)
    qed
    from idle m h g
    show "phase ?d = Idle
        \<and> map fst (started ?d) = [0..<length (filter is_enqueue evs)]
        \<and> (\<forall>x < length (filter is_enqueue evs).
              handles ?d x
                = (case handles ?q x of Some r \<Rightarrow> Some r | None \<Rightarrow> Some (out x)))
        \<and> (timely evs \<longrightarrow>
             gaps_ok (started ?d)
             \<and> (Suc i < length (started ?d) \<longrightarrow>
                  300 \<le> snd (started ?d ! Suc i) - snd (started ?d ! i)))"
      by blast
  qed
  have e: "phase ?q = Running e \<longrightarrow>
        handles (query_settles Rejected now ?q) = (handles ?q)(e \<mapsto> Rejected)
        \<and> (\<forall>e' rest. queue ?q = e' # rest \<longrightarrow>
             queue (query_settles Rejected now ?q) = rest
             \<and> (phase (query_settles Rejected now ?q) = Running e'
                \<or> phase (query_settles Rejected now ?q)
                    = Sleeping e' (lastQueryTime ?q + 300)))"
    using query_settles_rejected [of ?q e now] by (simp add: minInterval_def)
  have t: "phase ?q = Sleeping e due \<longrightarrow>
        phase (timer_fires now ?q) = Running e
        \<and> started (timer_fires now ?q) = started ?q @ [(e, now)]"
    using timer_fires_sleeping [of ?q e due now] by blast
  from a a2 d b p e t show ?thesis by blast
qed

lemma queue_run_snoc: "queue_run (evs @ [ev]) = queue_step (queue_run evs) ev"
  by (simp add: queue_run_def)

theorem query_queue_fifo_spacing_witness:
  "timely [Enqueue 1000, Enqueue 1010, Enqueue 1020 :: string queue_event]
   \<and> phase (queue_run [Enqueue 1000, Enqueue 1010, Enqueue 1020 :: string queue_event]) = Running 0
   \<and> queue (queue_run [Enqueue 1000, Enqueue 1010, Enqueue 1020 :: string queue_event]) = [1, 2]
   \<and> phase (drain 6 (\<lambda>e. if e = 0 then Rejected else Resolved ''in3'') (\<lambda>e. 5) (\<lambda>e. 40)
               (queue_run [Enqueue 1000, Enqueue 1010, Enqueue 1020])) = Idle
   \<and> started (drain 6 (\<lambda>e. if e = 0 then Rejected else Resolved ''in3'') (\<lambda>e. 5) (\<lambda>e. 40)
                 (queue_run [Enqueue 1000, Enqueue 1010, Enqueue 1020]))
       = [(0, 1000), (1, 1305), (2, 1610)]
   \<and> handles (drain 6 (\<lambda>e. if e = 0 then Rejected else Resolved ''in3'') (\<lambda>e. 5) (\<lambda>e. 40)
                 (queue_run [Enqueue 1000, Enqueue 1010, Enqueue 1020])) 0 = Some Rejected
   \<and> handles (drain 6 (\<lambda>e. if e = 0 then Rejected else Resolved ''in3'') (\<lambda>e. 5) (\<lambda>e. 40)
                 (queue_run [Enqueue 1000, Enqueue 1010, Enqueue 1020])) 1 = Some (Resolved ''in3'')
   \<and> handles (drain 6 (\<lambda>e. if e = 0 then Rejected else Resolved ''in3'') (\<lambda>e. 5) (\<lambda>e. 40)
                 (queue_run [Enqueue 1000, Enqueue 1010, Enqueue 1020])) 2 = Some (Resolved ''in3'')
   \<and> timely [Enqueue 1000, Enqueue 1010, QuerySettles Rejected 1050,
              TimerFires 1300, QuerySettles (Resolved ''in3'') 1320]
   \<and> started (queue_run [Enqueue 1000, Enqueue 1010, QuerySettles Rejected 1050,
                          TimerFires 1300, QuerySettles (Resolved ''in3'') 1320])
       = [(0, 1000), (1, 1300)]
   \<and> (300::int) \<le> snd (started (queue_run [Enqueue 1000, Enqueue 1010, QuerySettles Rejected 1050,
                       TimerFires 1300, QuerySettles (Resolved ''in3'') 1320]) ! Suc 0)
              - snd (started (queue_run [Enqueue 1000, Enqueue 1010, QuerySettles Rejected 1050,
                       TimerFires 1300, QuerySettles (Resolved ''in3'') 1320]) ! 0)
   \<and> phase (query_settles Rejected 1050 (queue_run [Enqueue 1000, Enqueue 1010 :: string queue_event]))
       = Sleeping 1 1300
   \<and> phase (timer_fires 1300 (queue_run [Enqueue 1000, Enqueue 1010,
                                           QuerySettles (Rejected :: string settlement) 1050]))
       = Running 1"
proof -
  let ?e3 = "[Enqueue 1000, Enqueue 1010, Enqueue 1020] :: string queue_event list"
  let ?e2 = "[Enqueue 1000, Enqueue 1010] :: string queue_event list"
  let ?r3 = "[Enqueue 1000, Enqueue 1010, QuerySettles Rejected 1050] :: string queue_event list"
  let ?e5 = "[Enqueue 1000, Enqueue 1010, QuerySettles Rejected 1050,
              TimerFires 1300, QuerySettles (Resolved ''in3'') 1320] :: string queue_event list"
  let ?out = "\<lambda>e::nat. if e = 0 then Rejected else Resolved ''in3''"
  let ?late = "\<lambda>e::nat. 5::nat"
  let ?dur = "\<lambda>e::nat. 40::nat"
  have six: "(6::nat) = Suc (Suc (Suc (Suc (Suc (Suc 0)))))" by simp
  have t3: "timely ?e3"
    by (simp add: timely_def)
  have t5: "timely ?e5"
    by (simp add: timely_def initial_queue_def enqueue_def processQueue_def loop_head_def
          start_query_def query_settles_def timer_fires_def minInterval_def Let_def)
  have q3: "phase (queue_run ?e3) = Running 0" "queue (queue_run ?e3) = [1, 2]"
    "handles (queue_run ?e3) 0 = None" "handles (queue_run ?e3) 1 = None"
    "handles (queue_run ?e3) 2 = None"
    by (simp_all add: queue_run_def initial_queue_def enqueue_def processQueue_def loop_head_def
          start_query_def minInterval_def Let_def)
  have q2: "phase (queue_run ?e2) = Running 0" "queue (queue_run ?e2) = [1]"
    "lastQueryTime (queue_run ?e2) = 1000"
    by (simp_all add: queue_run_def initial_queue_def enqueue_def processQueue_def loop_head_def
          start_query_def minInterval_def Let_def)
  have r3: "phase (queue_run ?r3) = Sleeping 1 1300"
    by (simp add: queue_run_def initial_queue_def enqueue_def processQueue_def loop_head_def
          start_query_def query_settles_def minInterval_def Let_def)
  have q5: "started (queue_run ?e5) = [(0, 1000), (1, 1300)]"
    by (simp add: queue_run_def initial_queue_def enqueue_def processQueue_def loop_head_def
          start_query_def query_settles_def timer_fires_def minInterval_def Let_def)
  have d3: "started (drain 6 ?out ?late ?dur (queue_run ?e3)) = [(0, 1000), (1, 1305), (2, 1610)]"
    unfolding six
    by (simp add: queue_run_def initial_queue_def enqueue_def processQueue_def loop_head_def
          start_query_def query_settles_def timer_fires_def minInterval_def Let_def)
  have en: "length (filter is_enqueue ?e3) = 3" by simp
  note a = query_queue_fifo_spacing [where evs = ?e3 and n = 6 and out = ?out and late = ?late
             and dur = ?dur and i = 0 and e = 0 and now = 0 and due = 0]
  note b = query_queue_fifo_spacing [where evs = ?e5 and n = 6 and out = ?out and late = ?late
             and dur = ?dur and i = 0 and e = 0 and now = 0 and due = 0]
  note c = query_queue_fifo_spacing [where evs = ?e2 and n = 6 and out = ?out and late = ?late
             and dur = ?dur and i = 0 and e = 0 and now = 1050 and due = 0]
  note d = query_queue_fifo_spacing [where evs = ?r3 and n = 6 and out = ?out and late = ?late
             and dur = ?dur and i = 0 and e = 1 and now = 1300 and due = 1300]
  have fuel: "2 * length (queue (queue_run ?e3)) + 2 \<le> 6" unfolding q3 by simp
  from a fuel have idle: "phase (drain 6 ?out ?late ?dur (queue_run ?e3)) = Idle"
    and h: "\<forall>x < length (filter is_enqueue ?e3).
              handles (drain 6 ?out ?late ?dur (queue_run ?e3)) x
                = (case handles (queue_run ?e3) x of Some r \<Rightarrow> Some r | None \<Rightarrow> Some (?out x))"
    by blast+
  have h0: "handles (drain 6 ?out ?late ?dur (queue_run ?e3)) 0 = Some Rejected"
    using h [rule_format, of 0] q3(3) unfolding en by simp
  have h1: "handles (drain 6 ?out ?late ?dur (queue_run ?e3)) 1 = Some (Resolved ''in3'')"
    using h [rule_format, of 1] q3(4) unfolding en by simp
  have h2: "handles (drain 6 ?out ?late ?dur (queue_run ?e3)) 2 = Some (Resolved ''in3'')"
    using h [rule_format, of 2] q3(5) unfolding en by simp
  have len: "Suc 0 < length (started (queue_run ?e5))" unfolding q5 by simp
  from b t5 len have gap: "(300::int) \<le> snd (started (queue_run ?e5) ! Suc 0)
                                   - snd (started (queue_run ?e5) ! 0)"
    by blast
  have "query_settles Rejected 1050 (queue_run ?e2) = queue_run ?r3"
    using queue_run_snoc [of ?e2 "QuerySettles Rejected 1050"] by simp
  with r3 have ph: "phase (query_settles Rejected 1050 (queue_run ?e2)) = Sleeping 1 1300"
    by simp
  from d r3 have fire: "phase (timer_fires 1300 (queue_run ?r3)) = Running 1" by simp
  from t3 q3(1,2) idle d3 h0 h1 h2 t5 q5 gap ph fire show ?thesis by blast
qed

subsection \<open>C7: press and hold\<close>

lemma render_keeps:
  "w_device (render s) = w_device s" "lastSendTime (render s) = lastSendTime s"
  "calls (render s) = calls s" "timers (render s) = timers s" "nextTimer (render s) = nextTimer s"
  "isHolding (render s) = isHolding s" "holdCommand (render s) = holdCommand s"
  "repeatInterval (render s) = repeatInterval s" "fillDelayTimeout (render s) = fillDelayTimeout s"
  "lastSent (render s) = lastSent s" "showRemote (render s) = showRemote s"
  by (simp_all add: render_def)

lemma updateToast_keeps:
  "w_device (updateToast c s) = w_device s" "lastSendTime (updateToast c s) = lastSendTime s"
  "calls (updateToast c s) = calls s" "timers (updateToast c s) = timers s"
  "nextTimer (updateToast c s) = nextTimer s" "isHolding (updateToast c s) = isHolding s"
  "holdCommand (updateToast c s) = holdCommand s"
  "repeatInterval (updateToast c s) = repeatInterval s"
  "fillDelayTimeout (updateToast c s) = fillDelayTimeout s"
  by (simp_all add: updateToast_def render_keeps)

lemma debounced_cong:
  "lastSendTime s' = lastSendTime s \<Longrightarrow> debounced now s' = debounced now s"
  by (simp add: debounced_def)

lemma sendCommandSilent_fields:
  assumes "w_device s = Some d"
  shows "calls (sendCommandSilent now c s)
           = (if debounced now s then calls s else calls s @ [send_command (device_id d) c])"
    and "lastSendTime (sendCommandSilent now c s)
           = (if debounced now s then lastSendTime s else Some now)"
    and "timers (sendCommandSilent now c s) = timers s"
    and "nextTimer (sendCommandSilent now c s) = nextTimer s"
    and "w_device (sendCommandSilent now c s) = w_device s"
    and "isHolding (sendCommandSilent now c s) = isHolding s"
    and "holdCommand (sendCommandSilent now c s) = holdCommand s"
    and "repeatInterval (sendCommandSilent now c s) = repeatInterval s"
    and "fillDelayTimeout (sendCommandSilent now c s) = fillDelayTimeout s"
  using assms by (simp_all add: sendCommandSilent_def)

lemma startRepeat_fields:
  assumes "w_device s = Some d"
  shows "calls (startRepeat t0 c s)
           = (if debounced t0 s then calls s else calls s @ [send_command (device_id d) c])"
    and "lastSendTime (startRepeat t0 c s) = (if debounced t0 s then lastSendTime s else Some t0)"
    and "timers (startRepeat t0 c s)
           = timers s @ [fill_timer (nextTimer s) c, tick_timer (nextTimer s + 1) c]"
    and "nextTimer (startRepeat t0 c s) = nextTimer s + 2"
    and "w_device (startRepeat t0 c s) = Some d"
    and "isHolding (startRepeat t0 c s)"
    and "holdCommand (startRepeat t0 c s) = Some c"
    and "repeatInterval (startRepeat t0 c s) = Some (nextTimer s + 1)"
    and "fillDelayTimeout (startRepeat t0 c s) = Some (nextTimer s)"
proof -
  let ?s1 = "s\<lparr>isHolding := True, holdCommand := Some c\<rparr>"
  let ?s2 = "updateToast (Some c) ?s1"
  let ?s3 = "sendCommandSilent t0 c ?s2"
  have d2: "w_device ?s2 = Some d" using assms by (simp add: updateToast_keeps)
  have db: "debounced t0 ?s2 = debounced t0 s"
    by (rule debounced_cong) (simp add: updateToast_keeps)
  note f3 = sendCommandSilent_fields [OF d2, of t0 c]
  have sr: "startRepeat t0 c s
              = (snd (setTimer (RepeatTick c) 200 True
                        ((snd (setTimer (FillDelay c) 250 False ?s3))
                           \<lparr>fillDelayTimeout := Some (fst (setTimer (FillDelay c) 250 False ?s3))\<rparr>)))
                  \<lparr>repeatInterval :=
                     Some (fst (setTimer (RepeatTick c) 200 True
                        ((snd (setTimer (FillDelay c) 250 False ?s3))
                           \<lparr>fillDelayTimeout := Some (fst (setTimer (FillDelay c) 250 False ?s3))\<rparr>)))\<rparr>"
    by (simp add: startRepeat_def Let_def case_prod_beta)
  show "calls (startRepeat t0 c s)
           = (if debounced t0 s then calls s else calls s @ [send_command (device_id d) c])"
    unfolding sr using f3(1) db by (simp add: setTimer_def updateToast_keeps)
  show "lastSendTime (startRepeat t0 c s) = (if debounced t0 s then lastSendTime s else Some t0)"
    unfolding sr using f3(2) db by (simp add: setTimer_def updateToast_keeps)
  show "timers (startRepeat t0 c s)
           = timers s @ [fill_timer (nextTimer s) c, tick_timer (nextTimer s + 1) c]"
    unfolding sr using f3(3,4)
    by (simp add: setTimer_def updateToast_keeps fill_timer_def tick_timer_def)
  show "nextTimer (startRepeat t0 c s) = nextTimer s + 2"
    unfolding sr using f3(4) by (simp add: setTimer_def updateToast_keeps)
  show "w_device (startRepeat t0 c s) = Some d"
    unfolding sr using f3(5) d2 by (simp add: setTimer_def)
  show "isHolding (startRepeat t0 c s)"
    unfolding sr using f3(6) by (simp add: setTimer_def updateToast_keeps)
  show "holdCommand (startRepeat t0 c s) = Some c"
    unfolding sr using f3(7) by (simp add: setTimer_def updateToast_keeps)
  show "repeatInterval (startRepeat t0 c s) = Some (nextTimer s + 1)"
    unfolding sr using f3(4) by (simp add: setTimer_def updateToast_keeps)
  show "fillDelayTimeout (startRepeat t0 c s) = Some (nextTimer s)"
    unfolding sr using f3(4) by (simp add: setTimer_def updateToast_keeps)
qed



lemma filter_timer_fresh:
  "\<forall>t \<in> set ts. timer_id t \<noteq> i \<Longrightarrow> filter (\<lambda>t. timer_id t \<noteq> i) ts = ts"
  by (induction ts) simp_all













text \<open>
  A second press while the button is still held (a second mouse button, a second
  finger) overwrites the handle of the first interval: after the release the first
  interval is still pending and its next run dispatches again.
\<close>

lemma second_press_leaves_interval:
  "timers (stopRepeat (startRepeat 1400 ''volume_up'' (startRepeat 1000 ''volume_up'' card_open)))
     = [fill_timer 1 ''volume_up'', tick_timer 2 ''volume_up'', settle_timer 5]
   \<and> calls (fire_timer 2000 2
              (stopRepeat (startRepeat 1400 ''volume_up'' (startRepeat 1000 ''volume_up'' card_open))))
     = calls (stopRepeat (startRepeat 1400 ''volume_up'' (startRepeat 1000 ''volume_up'' card_open)))
       @ [send_command ''tv1'' ''volume_up'']"
  by (simp add: startRepeat_def stopRepeat_def sendCommandSilent_def debounced_def updateToast_def
        setTimer_def clearTimer_def fire_timer_def card_open_def card0_def tv1_def Let_def
        fill_timer_def tick_timer_def settle_timer_def)

subsection \<open>C9: closing the detail view\<close>







subsection \<open>The click listener and its target\<close>

lemma setTimer_keeps:
  "calls (snd (setTimer j d r s)) = calls s" "lastSent (snd (setTimer j d r s)) = lastSent s"
  by (simp_all add: setTimer_def)

lemma sendCommandToDevice_settled_calls:
  "calls (sendCommandToDevice_settled e n command c s) = calls s"
  by (simp add: sendCommandToDevice_settled_def setTimer_keeps render_keeps)

lemma sendCommandToDevice_call_calls:
  assumes "deviceId \<noteq> []" and "\<not> debounced now s"
  shows "\<exists>c. sendCommandToDevice_call now command deviceId s
               = (Some c, s\<lparr>lastSendTime := Some now, calls := calls s @ [c]\<rparr>)
             \<and> call_device_id c = Some deviceId"
  using assms by (simp add: sendCommandToDevice_call_def Let_def)

text \<open>
  The click listener makes at most one service call, and outside the debounce window
  exactly one, addressed to the device that \<open>click_target\<close> picks.
\<close>

lemma click_command_one_call:
  assumes "w_device s = Some own" and "\<not> debounced now s"
    and "target_device_id own (click_target command tv tgt flag (sourceDevice s)) \<noteq> []"
  shows "\<exists>c. calls (click_command e now command tv tgt flag s) = calls s @ [c]
             \<and> call_device_id c
                  = Some (target_device_id own (click_target command tv tgt flag (sourceDevice s)))"
proof (cases "click_target command tv tgt flag (sourceDevice s)")
  case (ToTvDevice d)
  with assms(3) have ne: "d \<noteq> []" by simp
  from sendCommandToDevice_call_calls [OF ne assms(2), of command] obtain c where
    "sendCommandToDevice_call now command d s
       = (Some c, s\<lparr>lastSendTime := Some now, calls := calls s @ [c]\<rparr>)"
    "call_device_id c = Some d" by blast
  with ToTvDevice show ?thesis
    by (simp add: click_command_def click_explicit_def Let_def
          sendCommandToDevice_settled_calls setTimer_keeps render_keeps)
next
  case (ToTargetDevice d)
  with assms(3) have ne: "d \<noteq> []" by simp
  from sendCommandToDevice_call_calls [OF ne assms(2), of command] obtain c where
    "sendCommandToDevice_call now command d s
       = (Some c, s\<lparr>lastSendTime := Some now, calls := calls s @ [c]\<rparr>)"
    "call_device_id c = Some d" by blast
  with ToTargetDevice show ?thesis
    by (simp add: click_command_def click_explicit_def Let_def
          sendCommandToDevice_settled_calls setTimer_keeps render_keeps)
next
  case (ToSourceDevice d)
  with assms(3) have ne: "d \<noteq> []" by simp
  from sendCommandToDevice_call_calls [OF ne assms(2), of command] obtain c where
    "sendCommandToDevice_call now command d s
       = (Some c, s\<lparr>lastSendTime := Some now, calls := calls s @ [c]\<rparr>)"
    "call_device_id c = Some d" by blast
  with ToSourceDevice show ?thesis
    by (simp add: click_command_def sendCommandToDevice_def sendCommandToDevice_settled_calls)
next
  case ToOwnDevice
  with assms(1,2) show ?thesis
    by (simp add: click_command_def sendCommand_def Let_def setTimer_keeps render_keeps)
qed

lemma click_command_debounced:
  "debounced now s \<Longrightarrow> calls (click_command e now command tv tgt flag s) = calls s"
  by (cases "click_target command tv tgt flag (sourceDevice s)")
     (simp_all add: click_command_def click_explicit_def sendCommandToDevice_def
        sendCommandToDevice_call_def sendCommand_def setTimer_keeps render_keeps
        split: option.splits)

subsection \<open>C2: the target of a button press\<close>

lemma press_button_repeatable:
  assumes "command \<in> set repeatableCommands" and "w_device s = Some own"
    and "\<not> debounced now s"
  shows "calls (press_button e now command tv tgt flag s)
           = calls s @ [send_command (device_id own) command]"
  using assms startRepeat_fields(1) [OF assms(2), of now command]
  by (simp add: press_button_def)

text \<open>
  C2 at a press on \<open>channel_up\<close> with no explicit target and no send-to-source flag
  while a source device is active: the command is outside the volume-control set, so
  the claim sends it to the source device (as the listener's comment "in matrix mode,
  non-volume commands go to source device" says, and as the click on \<open>menu\<close> does).
  \<open>channel_up\<close> is in \<open>repeatableCommands\<close>, whose buttons get the press-and-hold
  listeners instead of the click listener ("always use TV for volume"), so the press
  is sent to the widget's own device. A press on \<open>mute\<close> goes to the own device, as
  the claim says.
\<close>

theorem press_channel_up_with_source:
  "sourceDevice card_source = Some (HaSource roku)
   \<and> ''channel_up'' \<notin> set volume_set
   \<and> press_target ''channel_up'' None None False (sourceDevice card_source) = ToOwnDevice
   \<and> calls (press_button env_up 1000 ''channel_up'' None None False card_source)
       = [send_command ''tv1'' ''channel_up'']
   \<and> press_target ''menu'' None None False (sourceDevice card_source) = ToSourceDevice ''roku''
   \<and> calls (press_button env_up 1000 ''menu'' None None False card_source)
       = [send_ha_command ''roku'' ''menu'']
   \<and> calls (press_button env_up 1000 ''mute'' None None False card_source)
       = [send_command ''tv1'' ''mute'']"
  by (simp add: press_button_def press_target_def repeatableCommands_def volume_set_def
        click_command_def click_target_def truthy_str_def sendCommandToDevice_def
        sendCommandToDevice_call_def sendCommandToDevice_settled_def sendCommand_def
        startRepeat_def sendCommandSilent_def debounced_def updateToast_def setTimer_def
        render_def card_source_def card_open_def card0_def tv1_def roku_def env_up_def Let_def)

end
